theory Spec2Isabelle
  imports Complex_Main
begin

section \<open>Activation layer of the neural network library (hw3/src/activations.cpp)\<close>

text \<open>
  The cells of a matrix are C++ \<open>double\<close>s. Two models of them are used.
  \<^item> Exact cells, of type \<^typ>\<open>real\<close>: every operation is the exact one. The whole
    file is embedded over them, and the properties proved there are stated in the
    code's own order of operations (a cell is this product, this row is that matrix
    product, this call fails), so they do not rest on an identity that only exact
    arithmetic has.
  \<^item> Double-precision cells, of type \<open>double\<close> below: IEEE 754 binary64 values with
    infinities and NaN, every operation rounded to nearest, ties to even, with overflow
    and gradual underflow. The softmax forward pass and the softmax Jacobian are embedded
    over them a second time, for the properties in which rounding, overflow or underflow
    decide.

  Matrix dimensions (C++ \<open>int\<close>) are natural numbers; no claim depends on their
  overflow. Assertions are modelled as enabled (no \<open>NDEBUG\<close>): a failed \<open>assert\<close>
  aborts the call, which is the result \<open>Inl\<close> of the error.
\<close>

subsection \<open>The matrix collaborator (matrix.h)\<close>

text \<open>
  A dense row-major matrix: \<open>rows\<close>, \<open>cols\<close> and the flat buffer \<open>data\<close>, which
  \<open>begin()\<close> exposes. Cell \<open>(i, j)\<close> is \<open>data[i * cols + j]\<close>. The record is generic in
  the model of the cells; \<open>Matrix\<close> is the matrix of exact cells.
\<close>

record 'a Mat =
  rows :: nat
  cols :: nat
  data :: "'a list"

type_synonym Matrix = "real Mat"

text \<open>The class invariant of \<open>Matrix\<close>: the buffer holds exactly \<open>rows * cols\<close> cells.\<close>

definition well_formed :: "'a Mat \<Rightarrow> bool" where
  "well_formed m = (length (data m) = rows m * cols m)"

datatype error = SizeMismatch | AssertionFailure

text \<open>
  Modelled from the spec: the header matrix.h is not among the sources. The spec lists
  what the activations consume from it: construction with explicit row and column
  count, element read and write by (row, column), row extraction as a 1-row matrix,
  transpose, matrix multiplication and matrix subtraction. \<open>new_matrix\<close> is the
  constructor \<open>Matrix(rows, cols)\<close>; its cells start at zero, which
  \<open>softmax_jacobian\<close> relies on (it writes the diagonal only).
\<close>

definition new_matrix :: "nat \<Rightarrow> nat \<Rightarrow> Matrix" where
  "new_matrix r c = \<lparr>rows = r, cols = c, data = replicate (r * c) 0\<rparr>"

text \<open>Modelled from the spec: element read \<open>m[i][j]\<close>.\<close>

definition mget :: "'a Mat \<Rightarrow> nat \<Rightarrow> nat \<Rightarrow> 'a" where
  "mget m i j = data m ! (i * cols m + j)"

text \<open>Modelled from the spec: element write \<open>m[i][j] = v\<close>.\<close>

definition mset :: "'a Mat \<Rightarrow> nat \<Rightarrow> nat \<Rightarrow> 'a \<Rightarrow> 'a Mat" where
  "mset m i j v = m\<lparr>data := (data m)[i * cols m + j := v]\<rparr>"

text \<open>
  Modelled from the spec: a matrix given by its entries, laid out row-major; cell \<open>k\<close>
  of the buffer is entry \<open>(k div c, k mod c)\<close>.
\<close>

definition tabulate :: "nat \<Rightarrow> nat \<Rightarrow> (nat \<Rightarrow> nat \<Rightarrow> 'a) \<Rightarrow> 'a Mat" where
  "tabulate r c f = \<lparr>rows = r, cols = c, data = map (\<lambda>k. f (k div c) (k mod c)) [0..<r * c]\<rparr>"

text \<open>Modelled from the spec: \<open>m.get_row(i)\<close>, row \<open>i\<close> as a 1-row matrix.\<close>

definition get_row :: "'a Mat \<Rightarrow> nat \<Rightarrow> 'a Mat" where
  "get_row m i = tabulate 1 (cols m) (\<lambda>_ j. mget m i j)"

text \<open>Modelled from the spec: \<open>m.transpose()\<close>.\<close>

definition transpose_matrix :: "'a Mat \<Rightarrow> 'a Mat" where
  "transpose_matrix m = tabulate (cols m) (rows m) (\<lambda>i j. mget m j i)"

text \<open>
  Modelled from the spec: the size check \<open>assert_same_size(a, b)\<close>, which the backward
  functions call first; it holds when both dimensions agree and aborts otherwise.
\<close>

definition assert_same_size :: "'a Mat \<Rightarrow> 'a Mat \<Rightarrow> bool" where
  "assert_same_size a b = (rows a = rows b \<and> cols a = cols b)"

text \<open>
  Modelled from the spec: the matrix product \<open>a * b\<close>, entry \<open>(i, j)\<close> being the sum
  over \<open>k\<close> of \<open>a[i][k] * b[k][j]\<close>; operands that do not conform are a contract error.
\<close>

definition matrix_mult :: "Matrix \<Rightarrow> Matrix \<Rightarrow> error + Matrix" where
  "matrix_mult a b =
     (if cols a \<noteq> rows b then Inl SizeMismatch
      else Inr (tabulate (rows a) (cols b)
                  (\<lambda>i j. \<Sum>k\<leftarrow>[0..<cols a]. mget a i k * mget b k j)))"

text \<open>
  Modelled from the spec: the elementwise difference \<open>a - b\<close>; operands of different
  size are a contract error.
\<close>

definition matrix_sub :: "Matrix \<Rightarrow> Matrix \<Rightarrow> error + Matrix" where
  "matrix_sub a b =
     (if \<not> assert_same_size a b then Inl SizeMismatch
      else Inr (tabulate (rows a) (cols a) (\<lambda>i j. mget a i j - mget b i j)))"

subsection \<open>The activation kinds (neural.h)\<close>

datatype Activation = LINEAR | LOGISTIC | TANH | RELU | LRELU | SOFTMAX

subsection \<open>Elementwise activations\<close>

text \<open>
  Each loop \<open>for (long i = 0; i < m.rows * m.cols; i++)\<close> over the flat buffer is a
  \<open>fold\<close> over the indices; the loop body reads and writes \<open>m.begin()[i]\<close>.
\<close>

definition forward_linear :: "Matrix \<Rightarrow> Matrix" where
  "forward_linear matrix = (let activated = matrix in activated)"

definition backward_linear :: "Matrix \<Rightarrow> Matrix \<Rightarrow> error + Matrix" where
  "backward_linear out prev_grad =
     (if \<not> assert_same_size prev_grad out then Inl SizeMismatch
      else let grad = prev_grad in Inr grad)"

definition forward_logistic :: "Matrix \<Rightarrow> Matrix" where
  "forward_logistic matrix =
     fold (\<lambda>i activated.
             let x = data activated ! i;
                 fx = 1 / (1 + exp (- 1 * x))
             in activated\<lparr>data := (data activated)[i := fx]\<rparr>)
          [0..<rows matrix * cols matrix] matrix"

definition backward_logistic :: "Matrix \<Rightarrow> Matrix \<Rightarrow> error + Matrix" where
  "backward_logistic out prev_grad =
     (if \<not> assert_same_size prev_grad out then Inl SizeMismatch
      else Inr (fold (\<lambda>i grad.
                        let next = data grad ! i;
                            f = data out ! i;
                            fdot = f * (1 - f)
                        in grad\<lparr>data := (data grad)[i := next * fdot]\<rparr>)
                     [0..<rows prev_grad * cols prev_grad] prev_grad))"

definition forward_tanh :: "Matrix \<Rightarrow> Matrix" where
  "forward_tanh matrix =
     fold (\<lambda>i activated.
             let x = data activated ! i;
                 fx = tanh x
             in activated\<lparr>data := (data activated)[i := fx]\<rparr>)
          [0..<rows matrix * cols matrix] matrix"

definition backward_tanh :: "Matrix \<Rightarrow> Matrix \<Rightarrow> error + Matrix" where
  "backward_tanh out prev_grad =
     (if \<not> assert_same_size prev_grad out then Inl SizeMismatch
      else Inr (fold (\<lambda>i grad.
                        let next = data grad ! i;
                            f = data out ! i;
                            fdot = 1 - f ^ 2
                        in grad\<lparr>data := (data grad)[i := next * fdot]\<rparr>)
                     [0..<rows prev_grad * cols prev_grad] prev_grad))"

definition forward_relu :: "Matrix \<Rightarrow> Matrix" where
  "forward_relu matrix =
     fold (\<lambda>i activated.
             let x = data activated ! i;
                 fx = (if x > 0 then x else 0)
             in activated\<lparr>data := (data activated)[i := fx]\<rparr>)
          [0..<rows matrix * cols matrix] matrix"

definition backward_relu :: "Matrix \<Rightarrow> Matrix \<Rightarrow> error + Matrix" where
  "backward_relu out prev_grad =
     (if \<not> assert_same_size prev_grad out then Inl SizeMismatch
      else Inr (fold (\<lambda>i grad.
                        let next = data grad ! i;
                            f = data out ! i;
                            fdot = (if f < 0 then 0 else 1)
                        in grad\<lparr>data := (data grad)[i := next * fdot]\<rparr>)
                     [0..<rows prev_grad * cols prev_grad] prev_grad))"

definition forward_lrelu :: "Matrix \<Rightarrow> Matrix" where
  "forward_lrelu matrix =
     fold (\<lambda>i activated.
             let x = data activated ! i;
                 fx = (if x > 0 then x else 0.01 * x)
             in activated\<lparr>data := (data activated)[i := fx]\<rparr>)
          [0..<rows matrix * cols matrix] matrix"

definition backward_lrelu :: "Matrix \<Rightarrow> Matrix \<Rightarrow> error + Matrix" where
  "backward_lrelu out prev_grad =
     (if \<not> assert_same_size prev_grad out then Inl SizeMismatch
      else Inr (fold (\<lambda>i grad.
                        let next = data grad ! i;
                            f = data out ! i;
                            fdot = (if f < 0 then 0.01 else 1)
                        in grad\<lparr>data := (data grad)[i := next * fdot]\<rparr>)
                     [0..<rows prev_grad * cols prev_grad] prev_grad))"

subsection \<open>Softmax\<close>

text \<open>
  The forward pass over exact cells. There the exponential is never zero and never
  infinite, and the test \<open>sum == 0\<close> never holds on a row that has a cell, so this
  embedding serves for the size of the result only (the dispatcher). What the forward
  pass computes, with the guard and without a stabilising shift, is stated on the
  double-precision embedding further down.

  The first inner loop of \<open>forward_softmax\<close>: it overwrites row \<open>i\<close> with the
  exponentials and accumulates their sum, left to right from 0.
\<close>

definition softmax_exp_row :: "nat \<Rightarrow> Matrix \<Rightarrow> real \<times> Matrix" where
  "softmax_exp_row i activated =
     fold (\<lambda>j (sum_row, activated).
             let x = mget activated i j;
                 fx = exp x
             in (sum_row + fx, mset activated i j fx))
          [0..<cols activated] (0, activated)"

text \<open>The second inner loop: it divides row \<open>i\<close> by the sum, or zeroes it when the sum is 0.\<close>

definition softmax_div_row :: "nat \<Rightarrow> real \<Rightarrow> Matrix \<Rightarrow> Matrix" where
  "softmax_div_row i sum_row activated =
     fold (\<lambda>j activated.
             let x = mget activated i j;
                 fx = (if sum_row = 0 then 0 else x / sum_row)
             in mset activated i j fx)
          [0..<cols activated] activated"

definition forward_softmax :: "Matrix \<Rightarrow> Matrix" where
  "forward_softmax matrix =
     fold (\<lambda>i activated.
             case softmax_exp_row i activated of
               (sum_row, activated) \<Rightarrow> softmax_div_row i sum_row activated)
          [0..<rows matrix] matrix"

text \<open>
  \<open>softmax_jacobian\<close>: the assertion on the row count, the zero matrix with the
  diagonal written by the double loop, the subtraction of \<open>out_row\<^sup>T * out_row\<close>, and
  the two closing assertions on the result's size. Over exact cells it serves for the
  backward pass, whose property keeps the code's order of operations; the cells of the
  Jacobian as doubles are stated on the double-precision embedding further down.
\<close>

definition softmax_jacobian :: "Matrix \<Rightarrow> error + Matrix" where
  "softmax_jacobian out_row =
     (if rows out_row \<noteq> 1 then Inl AssertionFailure
      else
        let jacobian =
              fold (\<lambda>i jacobian.
                      fold (\<lambda>j jacobian.
                              if i = j then mset jacobian i j (mget out_row 0 j)
                              else jacobian)
                           [0..<cols out_row] jacobian)
                   [0..<cols out_row] (new_matrix (cols out_row) (cols out_row))
        in case matrix_mult (transpose_matrix out_row) out_row of
             Inl e \<Rightarrow> Inl e
           | Inr outer \<Rightarrow>
               (case matrix_sub jacobian outer of
                  Inl e \<Rightarrow> Inl e
                | Inr jacobian \<Rightarrow>
                    if rows jacobian \<noteq> cols out_row then Inl AssertionFailure
                    else if cols jacobian \<noteq> cols out_row then Inl AssertionFailure
                    else Inr jacobian))"

text \<open>
  One iteration of the row loop of \<open>backward_softmax\<close>: the Jacobian of row \<open>i\<close> of
  \<open>out\<close>, the product of row \<open>i\<close> of \<open>prev_grad\<close> with it, and the copy of the
  product into row \<open>i\<close> of \<open>grad\<close>. A failure of a callee aborts the whole call.
\<close>

definition backward_softmax_row :: "Matrix \<Rightarrow> Matrix \<Rightarrow> nat \<Rightarrow> Matrix \<Rightarrow> error + Matrix" where
  "backward_softmax_row out prev_grad i grad =
     (case softmax_jacobian (get_row out i) of
        Inl e \<Rightarrow> Inl e
      | Inr jacobian \<Rightarrow>
          let row_grad = get_row prev_grad i in
          (case matrix_mult row_grad jacobian of
             Inl e \<Rightarrow> Inl e
           | Inr product \<Rightarrow>
               Inr (fold (\<lambda>j grad. mset grad i j (mget product 0 j))
                         [0..<cols out] grad)))"

definition backward_softmax :: "Matrix \<Rightarrow> Matrix \<Rightarrow> error + Matrix" where
  "backward_softmax out prev_grad =
     (if \<not> assert_same_size prev_grad out then Inl SizeMismatch
      else fold (\<lambda>i r. case r of
                          Inl e \<Rightarrow> Inl e
                        | Inr grad \<Rightarrow> backward_softmax_row out prev_grad i grad)
                [0..<rows out] (Inr prev_grad))"

subsection \<open>Dispatch\<close>

text \<open>
  The chains of comparisons of the dispatchers; the final \<open>assert(false)\<close> is kept as
  the last branch, which no value of the enumeration reaches.
\<close>

definition forward_activate_matrix :: "Matrix \<Rightarrow> Activation \<Rightarrow> error + Matrix" where
  "forward_activate_matrix matrix a =
     (if a = LINEAR then Inr (forward_linear matrix)
      else if a = LOGISTIC then Inr (forward_logistic matrix)
      else if a = TANH then Inr (forward_tanh matrix)
      else if a = RELU then Inr (forward_relu matrix)
      else if a = LRELU then Inr (forward_lrelu matrix)
      else if a = SOFTMAX then Inr (forward_softmax matrix)
      else Inl AssertionFailure)"

definition backward_activate_matrix :: "Matrix \<Rightarrow> Matrix \<Rightarrow> Activation \<Rightarrow> error + Matrix" where
  "backward_activate_matrix out grad a =
     (if a = LINEAR then backward_linear out grad
      else if a = LOGISTIC then backward_logistic out grad
      else if a = TANH then backward_tanh out grad
      else if a = RELU then backward_relu out grad
      else if a = LRELU then backward_lrelu out grad
      else if a = SOFTMAX then backward_softmax out grad
      else Inl AssertionFailure)"

subsection \<open>Double-precision cells\<close>

text \<open>
  A binary64 value is a finite real, an infinity or NaN. The two zeros are one value
  (they are equal under \<open>==\<close>, and this code never divides by a zero it has not tested).
  Every arithmetic operation is taken to be evaluated in binary64 and rounded once
  (no extended precision, no fused multiply-add).
\<close>

datatype double = Finite real | PInf | NInf | NaN

text \<open>
  Rounding to nearest, ties to even. \<open>ulp_exponent x\<close> is the exponent of the unit in
  the last place of the binade of \<open>x\<close>: 52 below the exponent of \<open>x\<close>, and never less
  than -1074, the exponent of the smallest subnormal number. \<open>nearest x\<close> is the nearest
  multiple of that unit. A result beyond the largest finite double overflows to an
  infinity.
\<close>

definition ulp_exponent :: "real \<Rightarrow> int" where
  "ulp_exponent x = max (\<lfloor>log 2 \<bar>x\<bar>\<rfloor> - 52) (- 1074)"

definition round_even :: "real \<Rightarrow> int" where
  "round_even t =
     (let f = \<lfloor>t\<rfloor>; d = t - of_int f
      in if d < 1 / 2 then f else if 1 / 2 < d then f + 1 else if even f then f else f + 1)"

definition nearest :: "real \<Rightarrow> real" where
  "nearest x =
     (if x = 0 then 0
      else let e = ulp_exponent x
           in of_int (round_even (x / 2 powr of_int e)) * 2 powr of_int e)"

definition max_double :: real where
  "max_double = (2 ^ 53 - 1) * 2 ^ 971"

definition fl :: "real \<Rightarrow> double" where
  "fl x = (if max_double < \<bar>nearest x\<bar> then (if 0 < x then PInf else NInf)
           else Finite (nearest x))"

text \<open>
  The arithmetic of \<open>double\<close>: the special values follow IEEE 754, two finite operands
  give the rounded exact result.
\<close>

fun dadd :: "double \<Rightarrow> double \<Rightarrow> double" where
  "dadd NaN _ = NaN"
| "dadd _ NaN = NaN"
| "dadd PInf NInf = NaN"
| "dadd NInf PInf = NaN"
| "dadd PInf _ = PInf"
| "dadd _ PInf = PInf"
| "dadd NInf _ = NInf"
| "dadd _ NInf = NInf"
| "dadd (Finite x) (Finite y) = fl (x + y)"

fun dsub :: "double \<Rightarrow> double \<Rightarrow> double" where
  "dsub NaN _ = NaN"
| "dsub _ NaN = NaN"
| "dsub PInf PInf = NaN"
| "dsub NInf NInf = NaN"
| "dsub PInf _ = PInf"
| "dsub _ NInf = PInf"
| "dsub NInf _ = NInf"
| "dsub _ PInf = NInf"
| "dsub (Finite x) (Finite y) = fl (x - y)"

fun negative :: "double \<Rightarrow> bool" where
  "negative (Finite x) = (x < 0)"
| "negative NInf = True"
| "negative _ = False"

fun dmul :: "double \<Rightarrow> double \<Rightarrow> double" where
  "dmul NaN _ = NaN"
| "dmul _ NaN = NaN"
| "dmul (Finite x) (Finite y) = fl (x * y)"
| "dmul a b =
     (if a = Finite 0 \<or> b = Finite 0 then NaN
      else if negative a = negative b then PInf else NInf)"

fun ddiv :: "double \<Rightarrow> double \<Rightarrow> double" where
  "ddiv NaN _ = NaN"
| "ddiv _ NaN = NaN"
| "ddiv (Finite x) (Finite y) =
     (if y = 0 then (if x = 0 then NaN else if 0 < x then PInf else NInf)
      else fl (x / y))"
| "ddiv (Finite x) _ = Finite 0"
| "ddiv a (Finite y) = (if negative a = (y < 0) then PInf else NInf)"
| "ddiv _ _ = NaN"

text \<open>The comparison \<open>==\<close>: NaN is equal to nothing, itself included.\<close>

definition deq :: "double \<Rightarrow> double \<Rightarrow> bool" where
  "deq a b = (a \<noteq> NaN \<and> b \<noteq> NaN \<and> a = b)"

text \<open>
  The forward pass takes the C library's \<open>exp\<close> as a parameter \<open>ex\<close>, of which nothing
  is assumed. \<open>exp_double\<close> is one such function, the correctly rounded exponential; it
  is used to run the code on concrete rows.
\<close>

fun exp_double :: "double \<Rightarrow> double" where
  "exp_double (Finite x) = fl (exp x)"
| "exp_double PInf = PInf"
| "exp_double NInf = Finite 0"
| "exp_double NaN = NaN"

subsection \<open>Softmax on double-precision cells\<close>

text \<open>
  Modelled from the spec: the constructor, the product and the difference of matrix.h on
  double-precision cells. A product cell is accumulated from zero, left to right.
\<close>

definition new_matrix_double :: "nat \<Rightarrow> nat \<Rightarrow> double Mat" where
  "new_matrix_double r c = \<lparr>rows = r, cols = c, data = replicate (r * c) (Finite 0)\<rparr>"

definition matrix_mult_double :: "double Mat \<Rightarrow> double Mat \<Rightarrow> error + double Mat" where
  "matrix_mult_double a b =
     (if cols a \<noteq> rows b then Inl SizeMismatch
      else Inr (tabulate (rows a) (cols b)
                  (\<lambda>i j. fold (\<lambda>k acc. dadd acc (dmul (mget a i k) (mget b k j)))
                              [0..<cols a] (Finite 0))))"

definition matrix_sub_double :: "double Mat \<Rightarrow> double Mat \<Rightarrow> error + double Mat" where
  "matrix_sub_double a b =
     (if \<not> assert_same_size a b then Inl SizeMismatch
      else Inr (tabulate (rows a) (cols a) (\<lambda>i j. dsub (mget a i j) (mget b i j))))"

text \<open>
  \<open>forward_softmax\<close> and \<open>softmax_jacobian\<close> once more, line by line as above, on
  double-precision cells: \<open>sum += fx\<close> is a rounded addition, \<open>sum == 0\<close> is the
  comparison of doubles and \<open>x / sum\<close> is a rounded division.
\<close>

definition softmax_exp_row_double ::
  "(double \<Rightarrow> double) \<Rightarrow> nat \<Rightarrow> double Mat \<Rightarrow> double \<times> double Mat" where
  "softmax_exp_row_double ex i activated =
     fold (\<lambda>j (sum_row, activated).
             let x = mget activated i j;
                 fx = ex x
             in (dadd sum_row fx, mset activated i j fx))
          [0..<cols activated] (Finite 0, activated)"

definition softmax_div_row_double :: "nat \<Rightarrow> double \<Rightarrow> double Mat \<Rightarrow> double Mat" where
  "softmax_div_row_double i sum_row activated =
     fold (\<lambda>j activated.
             let x = mget activated i j;
                 fx = (if deq sum_row (Finite 0) then Finite 0 else ddiv x sum_row)
             in mset activated i j fx)
          [0..<cols activated] activated"

definition forward_softmax_double :: "(double \<Rightarrow> double) \<Rightarrow> double Mat \<Rightarrow> double Mat" where
  "forward_softmax_double ex matrix =
     fold (\<lambda>i activated.
             case softmax_exp_row_double ex i activated of
               (sum_row, activated) \<Rightarrow> softmax_div_row_double i sum_row activated)
          [0..<rows matrix] matrix"

definition softmax_jacobian_double :: "double Mat \<Rightarrow> error + double Mat" where
  "softmax_jacobian_double out_row =
     (if rows out_row \<noteq> 1 then Inl AssertionFailure
      else
        let jacobian =
              fold (\<lambda>i jacobian.
                      fold (\<lambda>j jacobian.
                              if i = j then mset jacobian i j (mget out_row 0 j)
                              else jacobian)
                           [0..<cols out_row] jacobian)
                   [0..<cols out_row] (new_matrix_double (cols out_row) (cols out_row))
        in case matrix_mult_double (transpose_matrix out_row) out_row of
             Inl e \<Rightarrow> Inl e
           | Inr outer \<Rightarrow>
               (case matrix_sub_double jacobian outer of
                  Inl e \<Rightarrow> Inl e
                | Inr jacobian \<Rightarrow>
                    if rows jacobian \<noteq> cols out_row then Inl AssertionFailure
                    else if cols jacobian \<noteq> cols out_row then Inl AssertionFailure
                    else Inr jacobian))"

subsection \<open>Specification predicates\<close>

text \<open>
  The contract of an elementwise backward pass with derivative \<open>f'\<close>: the call
  succeeds, the result has the size of \<open>out\<close>, and each cell is the incoming gradient
  times \<open>f'\<close> of the activated value.
\<close>

definition elementwise_gradient :: "(real \<Rightarrow> real) \<Rightarrow> Matrix \<Rightarrow> Matrix \<Rightarrow> error + Matrix \<Rightarrow> bool" where
  "elementwise_gradient f' out prev_grad r =
     (case r of
        Inl e \<Rightarrow> False
      | Inr grad \<Rightarrow>
          rows grad = rows out \<and> cols grad = cols out \<and> well_formed grad \<and>
          (\<forall>i<rows out. \<forall>j<cols out. mget grad i j = mget prev_grad i j * f' (mget out i j)))"

text \<open>The sum of the exponentials of row \<open>i\<close>, taken left to right as the loop does.\<close>

definition row_exp_sum :: "Matrix \<Rightarrow> nat \<Rightarrow> real" where
  "row_exp_sum m i = (\<Sum>j\<leftarrow>[0..<cols m]. exp (mget m i j))"

text \<open>
  The gradient of one row as the product of the 1-row matrix \<open>prev_grad.get_row(i)\<close>
  with the Jacobian built from \<open>out.get_row(i)\<close>.
\<close>

definition softmax_row_gradient :: "Matrix \<Rightarrow> Matrix \<Rightarrow> nat \<Rightarrow> error + Matrix" where
  "softmax_row_gradient out prev_grad i =
     (case softmax_jacobian (get_row out i) of
        Inl e \<Rightarrow> Inl e
      | Inr jacobian \<Rightarrow> matrix_mult (get_row prev_grad i) jacobian)"

text \<open>
  The sum of the exponentials of row \<open>i\<close> on double-precision cells: each addition
  rounded, from zero, left to right.
\<close>

definition row_exp_sum_double :: "(double \<Rightarrow> double) \<Rightarrow> double Mat \<Rightarrow> nat \<Rightarrow> double" where
  "row_exp_sum_double ex m i =
     fold (\<lambda>j sum_row. dadd sum_row (ex (mget m i j))) [0..<cols m] (Finite 0)"

section \<open>Properties\<close>

subsection \<open>The flat-buffer loops\<close>

lemma fold_data_lift:
  "fold (\<lambda>i a. a\<lparr>data := F i (data a)\<rparr>) js m = m\<lparr>data := fold F js (data m)\<rparr>"
  by (induction js arbitrary: m) simp_all

lemma fold_list_update:
  "n \<le> length xs \<Longrightarrow>
   fold (\<lambda>i ys. ys[i := h i (ys ! i)]) [0..<n] xs =
     map (\<lambda>k. if k < n then h k (xs ! k) else xs ! k) [0..<length xs]"
proof (induction n)
  case 0
  then show ?case by (simp add: map_nth)
next
  case (Suc n)
  then have n: "n < length xs" by simp
  have "(map (\<lambda>k. if k < n then h k (xs ! k) else xs ! k) [0..<length xs])
          [n := h n (xs ! n)] =
        map (\<lambda>k. if k < Suc n then h k (xs ! k) else xs ! k) [0..<length xs]"
    using n by (intro nth_equalityI) (auto simp: nth_list_update)
  with Suc n show ?case by simp
qed

lemma cell_in_range: "i < r \<Longrightarrow> j < c \<Longrightarrow> i * c + j < r * (c::nat)"
proof -
  assume i: "i < r" and j: "j < c"
  have "i * c + j < i * c + c" using j by simp
  also have "\<dots> = Suc i * c" by simp
  also have "\<dots> \<le> r * c" using i by (intro mult_le_mono1) simp
  finally show ?thesis .
qed

lemma elementwise_loop:
  assumes "well_formed m"
  shows "fold (\<lambda>i a. a\<lparr>data := (data a)[i := f (data a ! i)]\<rparr>) [0..<rows m * cols m] m =
           m\<lparr>data := map f (data m)\<rparr>"
proof -
  have len: "rows m * cols m = length (data m)"
    using assms by (simp add: well_formed_def)
  have "fold (\<lambda>i ys. ys[i := f (ys ! i)]) [0..<length (data m)] (data m) = map f (data m)"
    by (subst fold_list_update [where h = "\<lambda>_. f"]) (auto intro: nth_equalityI)
  then show ?thesis
    unfolding len
    by (simp add: fold_data_lift [where F = "\<lambda>i ys. ys[i := f (ys ! i)]"])
qed

lemma gradient_loop:
  assumes "well_formed g"
  shows "fold (\<lambda>i a. a\<lparr>data := (data a)[i := data a ! i * d (xs ! i)]\<rparr>) [0..<rows g * cols g] g =
           g\<lparr>data := map (\<lambda>k. data g ! k * d (xs ! k)) [0..<rows g * cols g]\<rparr>"
proof -
  have len: "rows g * cols g = length (data g)"
    using assms by (simp add: well_formed_def)
  have "fold (\<lambda>i ys. ys[i := ys ! i * d (xs ! i)]) [0..<length (data g)] (data g) =
          map (\<lambda>k. data g ! k * d (xs ! k)) [0..<length (data g)]"
    by (subst fold_list_update [where h = "\<lambda>i v. v * d (xs ! i)"]) (auto intro: nth_equalityI)
  then show ?thesis
    unfolding len
    by (simp add: fold_data_lift [where F = "\<lambda>i ys. ys[i := ys ! i * d (xs ! i)]"])
qed

lemma forward_logistic_data:
  "well_formed m \<Longrightarrow> forward_logistic m = m\<lparr>data := map (\<lambda>x. 1 / (1 + exp (- 1 * x))) (data m)\<rparr>"
  unfolding forward_logistic_def Let_def by (rule elementwise_loop)

lemma forward_tanh_data:
  "well_formed m \<Longrightarrow> forward_tanh m = m\<lparr>data := map tanh (data m)\<rparr>"
  unfolding forward_tanh_def Let_def by (rule elementwise_loop)

lemma forward_relu_data:
  "well_formed m \<Longrightarrow> forward_relu m = m\<lparr>data := map (\<lambda>x. if x > 0 then x else 0) (data m)\<rparr>"
  unfolding forward_relu_def Let_def by (rule elementwise_loop)

lemma forward_lrelu_data:
  "well_formed m \<Longrightarrow> forward_lrelu m = m\<lparr>data := map (\<lambda>x. if x > 0 then x else 0.01 * x) (data m)\<rparr>"
  unfolding forward_lrelu_def Let_def by (rule elementwise_loop)

lemma backward_logistic_data:
  "well_formed prev_grad \<Longrightarrow> assert_same_size prev_grad out \<Longrightarrow>
   backward_logistic out prev_grad =
     Inr (prev_grad\<lparr>data := map (\<lambda>k. data prev_grad ! k * (data out ! k * (1 - data out ! k)))
                               [0..<rows prev_grad * cols prev_grad]\<rparr>)"
  unfolding backward_logistic_def Let_def
  by (simp add: gradient_loop [where d = "\<lambda>f. f * (1 - f)"])

lemma backward_tanh_data:
  "well_formed prev_grad \<Longrightarrow> assert_same_size prev_grad out \<Longrightarrow>
   backward_tanh out prev_grad =
     Inr (prev_grad\<lparr>data := map (\<lambda>k. data prev_grad ! k * (1 - (data out ! k) ^ 2))
                               [0..<rows prev_grad * cols prev_grad]\<rparr>)"
  unfolding backward_tanh_def Let_def
  by (simp add: gradient_loop [where d = "\<lambda>f. 1 - f ^ 2"])

lemma backward_relu_data:
  "well_formed prev_grad \<Longrightarrow> assert_same_size prev_grad out \<Longrightarrow>
   backward_relu out prev_grad =
     Inr (prev_grad\<lparr>data := map (\<lambda>k. data prev_grad ! k * (if data out ! k < 0 then 0 else 1))
                               [0..<rows prev_grad * cols prev_grad]\<rparr>)"
  unfolding backward_relu_def Let_def
  by (simp add: gradient_loop [where d = "\<lambda>f. if f < 0 then 0 else 1"])

lemma backward_lrelu_data:
  "well_formed prev_grad \<Longrightarrow> assert_same_size prev_grad out \<Longrightarrow>
   backward_lrelu out prev_grad =
     Inr (prev_grad\<lparr>data := map (\<lambda>k. data prev_grad ! k * (if data out ! k < 0 then 0.01 else 1))
                               [0..<rows prev_grad * cols prev_grad]\<rparr>)"
  unfolding backward_lrelu_def Let_def
  by (simp add: gradient_loop [where d = "\<lambda>f. if f < 0 then 0.01 else 1"])

lemma gradient_data_elementwise:
  assumes "well_formed prev_grad" and "assert_same_size prev_grad out"
  shows "elementwise_gradient d out prev_grad
           (Inr (prev_grad\<lparr>data := map (\<lambda>k. data prev_grad ! k * d (data out ! k))
                                      [0..<rows prev_grad * cols prev_grad]\<rparr>))"
  using assms cell_in_range [of _ "rows out" _ "cols out"]
  by (simp add: elementwise_gradient_def well_formed_def assert_same_size_def mget_def)

lemma backward_logistic_gradient:
  assumes "well_formed prev_grad" and "assert_same_size prev_grad out"
  shows "elementwise_gradient (\<lambda>f. f * (1 - f)) out prev_grad (backward_logistic out prev_grad)"
  using gradient_data_elementwise [OF assms, of "\<lambda>f. f * (1 - f)"]
  by (simp add: backward_logistic_data [OF assms])

lemma backward_tanh_gradient:
  assumes "well_formed prev_grad" and "assert_same_size prev_grad out"
  shows "elementwise_gradient (\<lambda>f. 1 - f\<^sup>2) out prev_grad (backward_tanh out prev_grad)"
  using gradient_data_elementwise [OF assms, of "\<lambda>f. 1 - f\<^sup>2"]
  by (simp add: backward_tanh_data [OF assms])

lemma backward_relu_gradient:
  assumes "well_formed prev_grad" and "assert_same_size prev_grad out"
  shows "elementwise_gradient (\<lambda>f. if f < 0 then 0 else 1) out prev_grad
           (backward_relu out prev_grad)"
  using gradient_data_elementwise [OF assms, of "\<lambda>f. if f < 0 then 0 else 1"]
  by (simp add: backward_relu_data [OF assms])

lemma backward_lrelu_gradient:
  assumes "well_formed prev_grad" and "assert_same_size prev_grad out"
  shows "elementwise_gradient (\<lambda>f. if f < 0 then 0.01 else 1) out prev_grad
           (backward_lrelu out prev_grad)"
  using gradient_data_elementwise [OF assms, of "\<lambda>f. if f < 0 then 0.01 else 1"]
  by (simp add: backward_lrelu_data [OF assms])

lemma backward_linear_gradient:
  assumes "well_formed prev_grad" and "assert_same_size prev_grad out"
  shows "elementwise_gradient (\<lambda>f. 1) out prev_grad (backward_linear out prev_grad)"
  using assms
  by (simp add: backward_linear_def elementwise_gradient_def assert_same_size_def)

text \<open>
  Claim C4. For well-formed matrices \<open>out\<close> and \<open>prev_grad\<close> of the same size, each
  elementwise backward function returns a matrix of that size whose cell \<open>(i, j)\<close> is
  \<open>prev_grad[i][j]\<close> times the derivative evaluated on the activated value
  \<open>out[i][j]\<close>: \<open>out * (1 - out)\<close> for the logistic function, \<open>1 - out\<^sup>2\<close> for tanh,
  \<open>0.01\<close> when \<open>out < 0\<close> and \<open>1\<close> otherwise for the leaky ReLU, and \<open>1\<close> for the
  linear activation, whose backward function returns \<open>prev_grad\<close> unchanged.
\<close>

theorem backward_elementwise_derivatives:
  assumes "well_formed out" and "well_formed prev_grad" and "assert_same_size prev_grad out"
  shows "elementwise_gradient (\<lambda>f. f * (1 - f)) out prev_grad (backward_logistic out prev_grad)
       \<and> elementwise_gradient (\<lambda>f. 1 - f\<^sup>2) out prev_grad (backward_tanh out prev_grad)
       \<and> elementwise_gradient (\<lambda>f. if f < 0 then 0.01 else 1) out prev_grad
            (backward_lrelu out prev_grad)
       \<and> elementwise_gradient (\<lambda>f. 1) out prev_grad (backward_linear out prev_grad)
       \<and> backward_linear out prev_grad = Inr prev_grad"
proof -
  have "backward_linear out prev_grad = Inr prev_grad"
    using assms(3) by (simp add: backward_linear_def)
  then show ?thesis
    using backward_logistic_gradient [OF assms(2,3)] backward_tanh_gradient [OF assms(2,3)]
      backward_lrelu_gradient [OF assms(2,3)] backward_linear_gradient [OF assms(2,3)]
    by (intro conjI)
qed

theorem backward_elementwise_derivatives_witness:
  "well_formed (\<lparr>rows = 1, cols = 2, data = [1 / 2, - 1]\<rparr> :: Matrix)
   \<and> well_formed (\<lparr>rows = 1, cols = 2, data = [2, 3]\<rparr> :: Matrix)
   \<and> assert_same_size (\<lparr>rows = 1, cols = 2, data = [2, 3]\<rparr> :: Matrix)
        \<lparr>rows = 1, cols = 2, data = [1 / 2, - 1]\<rparr>
   \<and> elementwise_gradient (\<lambda>f. f * (1 - f)) \<lparr>rows = 1, cols = 2, data = [1 / 2, - 1]\<rparr>
        \<lparr>rows = 1, cols = 2, data = [2, 3]\<rparr>
        (backward_logistic \<lparr>rows = 1, cols = 2, data = [1 / 2, - 1]\<rparr>
           \<lparr>rows = 1, cols = 2, data = [2, 3]\<rparr>)
   \<and> elementwise_gradient (\<lambda>f. 1 - f\<^sup>2) \<lparr>rows = 1, cols = 2, data = [1 / 2, - 1]\<rparr>
        \<lparr>rows = 1, cols = 2, data = [2, 3]\<rparr>
        (backward_tanh \<lparr>rows = 1, cols = 2, data = [1 / 2, - 1]\<rparr>
           \<lparr>rows = 1, cols = 2, data = [2, 3]\<rparr>)
   \<and> elementwise_gradient (\<lambda>f. if f < 0 then 0.01 else 1)
        \<lparr>rows = 1, cols = 2, data = [1 / 2, - 1]\<rparr> \<lparr>rows = 1, cols = 2, data = [2, 3]\<rparr>
        (backward_lrelu \<lparr>rows = 1, cols = 2, data = [1 / 2, - 1]\<rparr>
           \<lparr>rows = 1, cols = 2, data = [2, 3]\<rparr>)
   \<and> backward_linear \<lparr>rows = 1, cols = 2, data = [1 / 2, - 1]\<rparr>
        \<lparr>rows = 1, cols = 2, data = [2, 3]\<rparr> = Inr \<lparr>rows = 1, cols = 2, data = [2, 3]\<rparr>"
  using backward_elementwise_derivatives
    [of "\<lparr>rows = 1, cols = 2, data = [1 / 2, - 1]\<rparr>" "\<lparr>rows = 1, cols = 2, data = [2, 3]\<rparr>"]
  by (simp add: well_formed_def assert_same_size_def)








text \<open>
  Claim C10. For a well-formed matrix and a well-formed gradient of the same size, the
  backward ReLU pass applied to the forward ReLU output returns the gradient unchanged:
  the forward output has no negative cell, and \<open>backward_relu\<close> gives derivative \<open>1\<close>
  to every cell that is not negative.
\<close>

theorem relu_backward_of_forward:
  assumes "well_formed matrix" and "well_formed g"
    and "rows g = rows matrix" and "cols g = cols matrix"
  shows "backward_relu (forward_relu matrix) g = Inr g"
proof -
  have len: "length (data g) = rows g * cols g" "length (data matrix) = rows g * cols g"
    using assms by (simp_all add: well_formed_def)
  have same: "assert_same_size g (forward_relu matrix)"
    using assms by (simp add: forward_relu_data assert_same_size_def)
  have "map (\<lambda>k. data g ! k * (if data (forward_relu matrix) ! k < 0 then 0 else 1))
          [0..<rows g * cols g] = data g"
    using assms(1) len by (intro nth_equalityI) (simp_all add: forward_relu_data)
  then show ?thesis
    using assms(2) same by (simp add: backward_relu_data)
qed

theorem relu_backward_of_forward_witness:
  "well_formed (\<lparr>rows = 1, cols = 3, data = [- 2, 0, 2]\<rparr> :: Matrix)
   \<and> well_formed (\<lparr>rows = 1, cols = 3, data = [1, 1, 1]\<rparr> :: Matrix)
   \<and> backward_relu (forward_relu \<lparr>rows = 1, cols = 3, data = [- 2, 0, 2]\<rparr>)
        \<lparr>rows = 1, cols = 3, data = [1, 1, 1]\<rparr>
       = Inr \<lparr>rows = 1, cols = 3, data = [1, 1, 1]\<rparr>"
  using relu_backward_of_forward
    [of "\<lparr>rows = 1, cols = 3, data = [- 2, 0, 2]\<rparr>" "\<lparr>rows = 1, cols = 3, data = [1, 1, 1]\<rparr>"]
  by (simp add: well_formed_def)

text \<open>
  Claim C7. When \<open>out\<close> and \<open>prev_grad\<close> differ in a dimension, every backward function
  and the backward dispatcher (for every activation kind) return the size-mismatch
  error, which carries no matrix; and \<open>softmax_jacobian\<close> returns the assertion failure
  whenever its argument does not have exactly one row.
\<close>

theorem backward_rejects_size_mismatch:
  "(rows prev_grad \<noteq> rows out \<or> cols prev_grad \<noteq> cols out \<longrightarrow>
      backward_linear out prev_grad = Inl SizeMismatch
    \<and> backward_logistic out prev_grad = Inl SizeMismatch
    \<and> backward_tanh out prev_grad = Inl SizeMismatch
    \<and> backward_relu out prev_grad = Inl SizeMismatch
    \<and> backward_lrelu out prev_grad = Inl SizeMismatch
    \<and> backward_softmax out prev_grad = Inl SizeMismatch
    \<and> (\<forall>a. backward_activate_matrix out prev_grad a = Inl SizeMismatch))
   \<and> (rows out_row \<noteq> 1 \<longrightarrow> softmax_jacobian out_row = Inl AssertionFailure)"
proof -
  have each: "backward_linear out prev_grad = Inl SizeMismatch
      \<and> backward_logistic out prev_grad = Inl SizeMismatch
      \<and> backward_tanh out prev_grad = Inl SizeMismatch
      \<and> backward_relu out prev_grad = Inl SizeMismatch
      \<and> backward_lrelu out prev_grad = Inl SizeMismatch
      \<and> backward_softmax out prev_grad = Inl SizeMismatch"
    if "rows prev_grad \<noteq> rows out \<or> cols prev_grad \<noteq> cols out"
  proof -
    from that have "\<not> assert_same_size prev_grad out"
      by (auto simp: assert_same_size_def)
    then show ?thesis
      by (simp add: backward_linear_def backward_logistic_def backward_tanh_def
          backward_relu_def backward_lrelu_def backward_softmax_def)
  qed
  have dispatch: "backward_activate_matrix out prev_grad a = Inl SizeMismatch"
    if "rows prev_grad \<noteq> rows out \<or> cols prev_grad \<noteq> cols out" for a
    using each [OF that] by (cases a) (simp_all add: backward_activate_matrix_def)
  have jac: "softmax_jacobian out_row = Inl AssertionFailure" if "rows out_row \<noteq> 1"
    using that by (simp add: softmax_jacobian_def)
  from each dispatch jac show ?thesis by blast
qed

theorem backward_rejects_size_mismatch_witness:
  "backward_linear \<lparr>rows = 1, cols = 2, data = [1, 2]\<rparr> \<lparr>rows = 2, cols = 1, data = [3, 4]\<rparr>
     = Inl SizeMismatch
   \<and> backward_logistic \<lparr>rows = 1, cols = 2, data = [1, 2]\<rparr> \<lparr>rows = 2, cols = 1, data = [3, 4]\<rparr>
     = Inl SizeMismatch
   \<and> backward_tanh \<lparr>rows = 1, cols = 2, data = [1, 2]\<rparr> \<lparr>rows = 2, cols = 1, data = [3, 4]\<rparr>
     = Inl SizeMismatch
   \<and> backward_relu \<lparr>rows = 1, cols = 2, data = [1, 2]\<rparr> \<lparr>rows = 2, cols = 1, data = [3, 4]\<rparr>
     = Inl SizeMismatch
   \<and> backward_lrelu \<lparr>rows = 1, cols = 2, data = [1, 2]\<rparr> \<lparr>rows = 2, cols = 1, data = [3, 4]\<rparr>
     = Inl SizeMismatch
   \<and> backward_softmax \<lparr>rows = 1, cols = 2, data = [1, 2]\<rparr> \<lparr>rows = 2, cols = 1, data = [3, 4]\<rparr>
     = Inl SizeMismatch
   \<and> backward_activate_matrix \<lparr>rows = 1, cols = 2, data = [1, 2]\<rparr>
        \<lparr>rows = 2, cols = 1, data = [3, 4]\<rparr> SOFTMAX = Inl SizeMismatch
   \<and> softmax_jacobian \<lparr>rows = 2, cols = 1, data = [3, 4]\<rparr> = Inl AssertionFailure"
  using backward_rejects_size_mismatch
    [of "\<lparr>rows = 2, cols = 1, data = [3, 4]\<rparr>" "\<lparr>rows = 1, cols = 2, data = [1, 2]\<rparr>"
        "\<lparr>rows = 2, cols = 1, data = [3, 4]\<rparr>"]
  by simp

subsection \<open>Loops over the cells of a row\<close>

lemma cols_mset [simp]: "cols (mset m i j v) = cols m"
  and rows_mset [simp]: "rows (mset m i j v) = rows m"
  and data_mset: "data (mset m i j v) = (data m)[i * cols m + j := v]"
  by (simp_all add: mset_def)

lemma fold_mset_data:
  "fold (\<lambda>j a. mset a (p j) (q j) (h j (mget a (p j) (q j)))) js m =
     m\<lparr>data := fold (\<lambda>j xs. xs[p j * cols m + q j := h j (xs ! (p j * cols m + q j))]) js (data m)\<rparr>"
  by (induction js arbitrary: m) (simp_all add: mset_def mget_def)

lemma fold_update_length:
  "length (fold (\<lambda>j xs. xs[idx j := h j (xs ! idx j)]) js xs) = length xs"
  by (induction js arbitrary: xs) simp_all

lemma fold_update_other:
  "k \<notin> idx ` set js \<Longrightarrow> fold (\<lambda>j xs. xs[idx j := h j (xs ! idx j)]) js xs ! k = xs ! k"
  by (induction js arbitrary: xs) auto

lemma fold_update_at:
  assumes "inj_on idx {..<n}" and "j < n" and "idx j < length xs"
  shows "fold (\<lambda>j xs. xs[idx j := h j (xs ! idx j)]) [0..<n] xs ! idx j = h j (xs ! idx j)"
  using assms
proof (induction n)
  case 0
  then show ?case by simp
next
  case (Suc n)
  let ?L = "fold (\<lambda>j xs. xs[idx j := h j (xs ! idx j)]) [0..<n] xs"
  have inj: "inj_on idx {..<n}"
    using Suc.prems(1) by (rule inj_on_subset) auto
  have step: "fold (\<lambda>j xs. xs[idx j := h j (xs ! idx j)]) [0..<Suc n] xs =
                ?L[idx n := h n (?L ! idx n)]"
    by simp
  show ?case
  proof (cases "j = n")
    case True
    have "idx n \<notin> idx ` set [0..<n]"
    proof
      assume "idx n \<in> idx ` set [0..<n]"
      then obtain j' where "j' < n" "idx n = idx j'" by auto
      with inj_onD [OF Suc.prems(1), of n j'] show False by simp
    qed
    then have "?L ! idx n = xs ! idx n" by (rule fold_update_other)
    with True Suc.prems(3) show ?thesis
      unfolding step by (simp add: fold_update_length)
  next
    case False
    with Suc.prems(2) have j: "j < n" by simp
    have "idx j \<noteq> idx n"
      using inj_onD [OF Suc.prems(1), of j n] j by auto
    then show ?thesis
      unfolding step using Suc.IH [OF inj j Suc.prems(3)] by simp
  qed
qed

lemma div_cell [simp]: "j < c \<Longrightarrow> (i * c + j) div c = (i::nat)"
  and mod_cell [simp]: "j < c \<Longrightarrow> (i * c + j) mod c = (j::nat)"
  by simp_all

lemma cell_index_eq:
  assumes "j < c" and "j' < c"
  shows "i * c + j = i' * c + j' \<longleftrightarrow> i = i' \<and> j = (j'::nat)"
proof
  assume eq: "i * c + j = i' * c + j'"
  then have "(i * c + j) div c = (i' * c + j') div c" "(i * c + j) mod c = (i' * c + j') mod c"
    by simp_all
  with assms show "i = i' \<and> j = j'" by simp
qed simp

lemma mget_tabulate: "i < r \<Longrightarrow> j < c \<Longrightarrow> mget (tabulate r c f) i j = f i j"
  using cell_in_range [of i r j c] by (simp add: mget_def tabulate_def)

lemma tabulate_cong:
  "(\<And>i j. i < r \<Longrightarrow> j < c \<Longrightarrow> f i j = g i j) \<Longrightarrow> tabulate r c f = tabulate r c g"
proof -
  assume eq: "\<And>i j. i < r \<Longrightarrow> j < c \<Longrightarrow> f i j = g i j"
  have "f (k div c) (k mod c) = g (k div c) (k mod c)" if "k < r * c" for k
  proof -
    from that have c: "0 < c" by (cases c) simp_all
    have "k div c < r"
      using that c by (simp add: less_mult_imp_div_less)
    moreover have "k mod c < c" using c by simp
    ultimately show ?thesis by (rule eq)
  qed
  then show ?thesis by (simp add: tabulate_def)
qed

lemma tabulate_shape [simp]:
  "rows (tabulate r c f) = r" "cols (tabulate r c f) = c" "well_formed (tabulate r c f)"
  by (simp_all add: tabulate_def well_formed_def)

text \<open>A well-formed matrix is the table of its own cells.\<close>

lemma tabulate_mget:
  assumes "well_formed m"
  shows "tabulate (rows m) (cols m) (mget m) = m"
proof -
  have "map (\<lambda>k. data m ! (k div cols m * cols m + k mod cols m)) [0..<rows m * cols m] = data m"
    using assms by (intro nth_equalityI) (simp_all add: well_formed_def)
  then show ?thesis by (simp add: tabulate_def mget_def)
qed

lemma row_update_loop:
  assumes "well_formed m" and "i < rows m"
  shows "fold (\<lambda>j a. mset a i j (h j (mget a i j))) [0..<cols m] m =
           tabulate (rows m) (cols m) (\<lambda>i' j. if i' = i then h j (mget m i j) else mget m i' j)"
proof -
  let ?c = "cols m"
  let ?idx = "\<lambda>j. i * ?c + j"
  let ?L = "fold (\<lambda>j xs. xs[?idx j := h j (xs ! ?idx j)]) [0..<?c] (data m)"
  have len: "length (data m) = rows m * ?c"
    using assms(1) by (simp add: well_formed_def)
  have lift: "fold (\<lambda>j a. mset a i j (h j (mget a i j))) [0..<?c] m = m\<lparr>data := ?L\<rparr>"
    by (rule fold_mset_data [where p = "\<lambda>_. i" and q = "\<lambda>j. j"])
  have inj: "inj_on ?idx {..<?c}"
    by (simp add: inj_on_def)
  have cell: "?L ! k = (if k div ?c = i then h (k mod ?c) (mget m i (k mod ?c))
                        else mget m (k div ?c) (k mod ?c))"
    if k: "k < rows m * ?c" for k
  proof -
    from k have c: "0 < ?c" by (cases ?c) simp_all
    have kdm: "k div ?c * ?c + k mod ?c = k" by simp
    show ?thesis
    proof (cases "k div ?c = i")
      case True
      then have k_eq: "k = ?idx (k mod ?c)" using kdm by simp
      have "?L ! ?idx (k mod ?c) = h (k mod ?c) (data m ! ?idx (k mod ?c))"
        using inj c k k_eq len by (intro fold_update_at) simp_all
      with True k_eq show ?thesis by (simp add: mget_def)
    next
      case False
      have "k \<notin> ?idx ` set [0..<?c]"
      proof
        assume "k \<in> ?idx ` set [0..<?c]"
        then obtain j where "k = i * ?c + j" "j \<in> set [0..<?c]" by (rule imageE)
        then have "k div ?c = i" by simp
        with False show False by simp
      qed
      then have "?L ! k = data m ! k" by (rule fold_update_other)
      with False kdm show ?thesis by (simp add: mget_def)
    qed
  qed
  have "?L = map (\<lambda>k. if k div ?c = i then h (k mod ?c) (mget m i (k mod ?c))
                       else mget m (k div ?c) (k mod ?c)) [0..<rows m * ?c]"
    using cell len by (intro nth_equalityI) (simp_all add: fold_update_length)
  then show ?thesis
    unfolding lift by (simp add: tabulate_def)
qed

lemma row_loop_untouched:
  assumes "n \<le> j"
  shows "mget (fold (\<lambda>j a. mset a i j (h j (mget a i j))) [0..<n] m) i j = mget m i j"
proof -
  let ?idx = "\<lambda>j. i * cols m + j"
  have "?idx j \<notin> ?idx ` set [0..<n]" using assms by auto
  then have "fold (\<lambda>j xs. xs[?idx j := h j (xs ! ?idx j)]) [0..<n] (data m) ! ?idx j
               = data m ! ?idx j"
    by (rule fold_update_other)
  then show ?thesis
    unfolding fold_mset_data [where p = "\<lambda>_. i" and q = "\<lambda>j. j"]
    by (simp add: mget_def)
qed

lemma exp_loop_pair:
  "fold (\<lambda>j (sum_row, activated).
           let x = mget activated i j; fx = exp x
           in (sum_row + fx, mset activated i j fx)) [0..<n] (s0, m) =
     (s0 + (\<Sum>j\<leftarrow>[0..<n]. exp (mget m i j)),
      fold (\<lambda>j a. mset a i j (exp (mget a i j))) [0..<n] m)"
proof (induction n)
  case 0
  then show ?case by simp
next
  case (Suc n)
  have "mget (fold (\<lambda>j a. mset a i j (exp (mget a i j))) [0..<n] m) i n = mget m i n"
    by (rule row_loop_untouched [where h = "\<lambda>_. exp"]) simp
  with Suc show ?case by (simp add: Let_def)
qed

lemma softmax_exp_row_eq:
  assumes "well_formed m" and "i < rows m"
  shows "softmax_exp_row i m =
           (row_exp_sum m i,
            tabulate (rows m) (cols m) (\<lambda>i' j. if i' = i then exp (mget m i j) else mget m i' j))"
  unfolding softmax_exp_row_def exp_loop_pair row_exp_sum_def
  using row_update_loop [OF assms, of "\<lambda>_. exp"] by simp

lemma softmax_div_row_eq:
  assumes "well_formed m" and "i < rows m"
  shows "softmax_div_row i s m =
           tabulate (rows m) (cols m)
             (\<lambda>i' j. if i' = i then (if s = 0 then 0 else mget m i j / s) else mget m i' j)"
  unfolding softmax_div_row_def Let_def
  using row_update_loop [OF assms, of "\<lambda>_ x. if s = 0 then 0 else x / s"] by simp

text \<open>One iteration of the row loop of \<open>forward_softmax\<close>.\<close>

lemma softmax_row_step:
  assumes "well_formed m" and "i < rows m"
  shows "(case softmax_exp_row i m of (sum_row, activated) \<Rightarrow> softmax_div_row i sum_row activated) =
           tabulate (rows m) (cols m)
             (\<lambda>i' j. if i' = i
                      then (if row_exp_sum m i = 0 then 0 else exp (mget m i j) / row_exp_sum m i)
                      else mget m i' j)"
proof -
  let ?A = "tabulate (rows m) (cols m) (\<lambda>i' j. if i' = i then exp (mget m i j) else mget m i' j)"
  have A: "well_formed ?A" "i < rows ?A" using assms(2) by simp_all
  have "softmax_div_row i (row_exp_sum m i) ?A =
          tabulate (rows m) (cols m)
            (\<lambda>i' j. if i' = i
                     then (if row_exp_sum m i = 0 then 0 else exp (mget m i j) / row_exp_sum m i)
                     else mget m i' j)"
    unfolding softmax_div_row_eq [OF A] tabulate_shape
    using assms(2) by (intro tabulate_cong) (simp add: mget_tabulate)
  then show ?thesis
    by (simp add: softmax_exp_row_eq [OF assms])
qed

lemma row_exp_sum_cong:
  "cols a = cols b \<Longrightarrow> (\<And>j. j < cols b \<Longrightarrow> mget a i j = mget b i j) \<Longrightarrow>
   row_exp_sum a i = row_exp_sum b i"
  unfolding row_exp_sum_def by (intro arg_cong [where f = sum_list]) simp

lemma forward_softmax_loop:
  assumes "well_formed m" and "n \<le> rows m"
  shows "fold (\<lambda>i activated.
                 case softmax_exp_row i activated of
                   (sum_row, activated) \<Rightarrow> softmax_div_row i sum_row activated) [0..<n] m =
           tabulate (rows m) (cols m)
             (\<lambda>i j. if i < n
                     then (if row_exp_sum m i = 0 then 0 else exp (mget m i j) / row_exp_sum m i)
                     else mget m i j)"
  using assms(2)
proof (induction n)
  case 0
  then show ?case by (simp add: tabulate_mget [OF assms(1)])
next
  case (Suc n)
  let ?v = "\<lambda>i j. if row_exp_sum m i = 0 then 0 else exp (mget m i j) / row_exp_sum m i"
  let ?F = "tabulate (rows m) (cols m) (\<lambda>i j. if i < n then ?v i j else mget m i j)"
  from Suc.prems have n: "n < rows m" by simp
  have F: "well_formed ?F" "n < rows ?F" using n by simp_all
  have cellF: "mget ?F n j = mget m n j" if "j < cols m" for j
    using that n by (simp add: mget_tabulate)
  have sumF: "row_exp_sum ?F n = row_exp_sum m n"
    by (rule row_exp_sum_cong) (simp_all add: cellF)
  have "tabulate (rows ?F) (cols ?F)
          (\<lambda>i' j. if i' = n
                   then (if row_exp_sum ?F n = 0 then 0 else exp (mget ?F n j) / row_exp_sum ?F n)
                   else mget ?F i' j) =
        tabulate (rows m) (cols m) (\<lambda>i j. if i < Suc n then ?v i j else mget m i j)"
    unfolding tabulate_shape sumF
    by (intro tabulate_cong) (auto simp: mget_tabulate cellF)
  with Suc.IH n show ?case
    by (simp add: softmax_row_step [OF F])
qed

lemma forward_softmax_eq:
  assumes "well_formed m"
  shows "forward_softmax m =
           tabulate (rows m) (cols m)
             (\<lambda>i j. if row_exp_sum m i = 0 then 0 else exp (mget m i j) / row_exp_sum m i)"
  unfolding forward_softmax_def forward_softmax_loop [OF assms order_refl]
  by (intro tabulate_cong) simp

subsection \<open>The softmax Jacobian and the backward pass in closed form\<close>

lemma diag_inner_loop:
  "fold (\<lambda>j J. if i = j then g j J else J) [0..<n] J = (if i < n then g i J else J)"
  by (induction n) auto

lemma diag_loop:
  "fold (\<lambda>i jacobian.
           fold (\<lambda>j jacobian. if i = j then mset jacobian i j (v j) else jacobian)
                [0..<c] jacobian)
        [0..<c] (new_matrix c c) =
     tabulate c c (\<lambda>i j. if i = j then v j else 0)"
proof -
  let ?idx = "\<lambda>i. i * c + i"
  let ?Z = "replicate (c * c) (0::real)"
  let ?L = "fold (\<lambda>i xs. xs[?idx i := v i]) [0..<c] ?Z"
  have inner: "fold (\<lambda>i jacobian.
                  fold (\<lambda>j jacobian. if i = j then mset jacobian i j (v j) else jacobian)
                       [0..<c] jacobian) [0..<c] (new_matrix c c) =
               fold (\<lambda>i jacobian. mset jacobian i i (v i)) [0..<c] (new_matrix c c)"
    by (intro fold_cong) (simp_all add: diag_inner_loop fun_eq_iff)
  have lift: "fold (\<lambda>i jacobian. mset jacobian i i (v i)) [0..<c] (new_matrix c c) =
                (new_matrix c c)\<lparr>data := ?L\<rparr>"
    using fold_mset_data [where p = "\<lambda>i. i" and q = "\<lambda>i. i" and h = "\<lambda>i _. v i"
        and m = "new_matrix c c" and js = "[0..<c]"]
    by (simp add: new_matrix_def)
  have inj: "inj_on ?idx {..<c}"
    by (rule inj_onI) (simp add: cell_index_eq)
  have cell: "?L ! k = (if k div c = k mod c then v (k mod c) else 0)" if k: "k < c * c" for k
  proof -
    from k have c: "0 < c" by (cases c) simp_all
    have kdm: "k div c * c + k mod c = k" by simp
    have m: "k mod c < c" using c by simp
    show ?thesis
    proof (cases "k div c = k mod c")
      case True
      then have k_eq: "k = ?idx (k mod c)" using kdm by simp
      have "?L ! ?idx (k mod c) = v (k mod c)"
        using fold_update_at [OF inj m, where h = "\<lambda>i _. v i" and xs = ?Z] k k_eq by simp
      with True k_eq show ?thesis by simp
    next
      case False
      have "k \<notin> ?idx ` set [0..<c]"
      proof
        assume "k \<in> ?idx ` set [0..<c]"
        then obtain i where "k = i * c + i" "i \<in> set [0..<c]" by (rule imageE)
        then have "k div c = i" "k mod c = i" by simp_all
        with False show False by simp
      qed
      then have "?L ! k = ?Z ! k"
        by (rule fold_update_other [where h = "\<lambda>i _. v i"])
      with False k show ?thesis by simp
    qed
  qed
  have "?L = map (\<lambda>k. if k div c = k mod c then v (k mod c) else 0) [0..<c * c]"
    using cell
    by (intro nth_equalityI) (simp_all add: fold_update_length [where h = "\<lambda>i _. v i"])
  then show ?thesis
    unfolding inner lift by (simp add: tabulate_def new_matrix_def)
qed

lemma rows_transpose [simp]: "rows (transpose_matrix m) = cols m"
  and cols_transpose [simp]: "cols (transpose_matrix m) = rows m"
  by (simp_all add: transpose_matrix_def)

lemma mget_transpose: "i < cols m \<Longrightarrow> j < rows m \<Longrightarrow> mget (transpose_matrix m) i j = mget m j i"
  by (simp add: transpose_matrix_def mget_tabulate)

lemma rows_get_row [simp]: "rows (get_row m i) = 1"
  and cols_get_row [simp]: "cols (get_row m i) = cols m"
  and well_formed_get_row [simp]: "well_formed (get_row m i)"
  by (simp_all add: get_row_def)

lemma mget_get_row: "j < cols m \<Longrightarrow> mget (get_row m i) 0 j = mget m i j"
  by (simp add: get_row_def mget_tabulate)

text \<open>The Jacobian in closed form: the diagonal matrix of the row minus the outer product.\<close>

lemma softmax_jacobian_eq:
  assumes "rows out_row = 1"
  shows "softmax_jacobian out_row =
           Inr (tabulate (cols out_row) (cols out_row)
                  (\<lambda>i j. (if i = j then mget out_row 0 j else 0)
                          - mget out_row 0 i * mget out_row 0 j))"
proof -
  let ?c = "cols out_row"
  let ?D = "tabulate ?c ?c (\<lambda>i j. if i = j then mget out_row 0 j else 0)"
  let ?O = "tabulate ?c ?c (\<lambda>i j. mget (transpose_matrix out_row) i 0 * mget out_row 0 j)"
  have outer: "matrix_mult (transpose_matrix out_row) out_row = Inr ?O"
    using assms by (simp add: matrix_mult_def)
  have sub: "matrix_sub ?D ?O = Inr (tabulate ?c ?c (\<lambda>i j. mget ?D i j - mget ?O i j))"
    by (simp add: matrix_sub_def assert_same_size_def)
  have entries: "tabulate ?c ?c (\<lambda>i j. mget ?D i j - mget ?O i j) =
                 tabulate ?c ?c (\<lambda>i j. (if i = j then mget out_row 0 j else 0)
                                        - mget out_row 0 i * mget out_row 0 j)"
    using assms by (intro tabulate_cong) (simp add: mget_tabulate mget_transpose)
  show ?thesis
    unfolding softmax_jacobian_def diag_loop Let_def outer
    using assms by (simp add: sub entries)
qed

lemma softmax_row_gradient_eq:
  assumes "cols prev_grad = cols out"
  shows "softmax_row_gradient out prev_grad i =
           Inr (tabulate 1 (cols out)
                  (\<lambda>_ j. \<Sum>k\<leftarrow>[0..<cols out].
                            mget prev_grad i k *
                            ((if k = j then mget out i j else 0) - mget out i k * mget out i j)))"
proof -
  let ?c = "cols out"
  let ?J = "tabulate ?c ?c (\<lambda>a b. (if a = b then mget (get_row out i) 0 b else 0)
                                   - mget (get_row out i) 0 a * mget (get_row out i) 0 b)"
  have jac: "softmax_jacobian (get_row out i) = Inr ?J"
    using softmax_jacobian_eq [of "get_row out i"] by simp
  have prod: "matrix_mult (get_row prev_grad i) ?J =
                Inr (tabulate 1 ?c (\<lambda>i' j. \<Sum>k\<leftarrow>[0..<?c]. mget (get_row prev_grad i) i' k * mget ?J k j))"
    using assms by (simp add: matrix_mult_def)
  have "(\<Sum>k\<leftarrow>[0..<?c]. mget (get_row prev_grad i) i' k * mget ?J k j) =
        (\<Sum>k\<leftarrow>[0..<?c]. mget prev_grad i k *
                           ((if k = j then mget out i j else 0) - mget out i k * mget out i j))"
    if "i' < 1" "j < ?c" for i' j
    using that assms
    by (intro arg_cong [where f = sum_list] map_cong) (simp_all add: mget_tabulate mget_get_row)
  then have "tabulate 1 ?c (\<lambda>i' j. \<Sum>k\<leftarrow>[0..<?c]. mget (get_row prev_grad i) i' k * mget ?J k j) =
        tabulate 1 ?c (\<lambda>_ j. \<Sum>k\<leftarrow>[0..<?c]. mget prev_grad i k *
                           ((if k = j then mget out i j else 0) - mget out i k * mget out i j))"
    by (rule tabulate_cong)
  then show ?thesis
    unfolding softmax_row_gradient_def jac by (simp add: prod)
qed

lemma backward_softmax_row_eq:
  assumes "well_formed grad" and "i < rows grad" and "cols grad = cols out"
    and "cols prev_grad = cols out"
  shows "backward_softmax_row out prev_grad i grad =
           Inr (tabulate (rows grad) (cols out)
                  (\<lambda>i' j. if i' = i
                           then \<Sum>k\<leftarrow>[0..<cols out].
                                  mget prev_grad i k *
                                  ((if k = j then mget out i j else 0) - mget out i k * mget out i j)
                           else mget grad i' j))"
proof -
  let ?c = "cols out"
  let ?g = "\<lambda>j. \<Sum>k\<leftarrow>[0..<?c]. mget prev_grad i k *
                      ((if k = j then mget out i j else 0) - mget out i k * mget out i j)"
  let ?P = "tabulate 1 ?c (\<lambda>_. ?g)"
  have split: "backward_softmax_row out prev_grad i grad =
      (case softmax_row_gradient out prev_grad i of
         Inl e \<Rightarrow> Inl e
       | Inr product \<Rightarrow>
           Inr (fold (\<lambda>j grad. mset grad i j (mget product 0 j)) [0..<cols out] grad))"
    by (simp add: backward_softmax_row_def softmax_row_gradient_def Let_def split: sum.splits)
  have copy: "fold (\<lambda>j grad. mset grad i j (mget ?P 0 j)) [0..<cols grad] grad =
                tabulate (rows grad) (cols grad)
                  (\<lambda>i' j. if i' = i then mget ?P 0 j else mget grad i' j)"
    by (rule row_update_loop [OF assms(1,2), where h = "\<lambda>j _. mget ?P 0 j"])
  have "tabulate (rows grad) ?c (\<lambda>i' j. if i' = i then mget ?P 0 j else mget grad i' j) =
        tabulate (rows grad) ?c (\<lambda>i' j. if i' = i then ?g j else mget grad i' j)"
    by (intro tabulate_cong) (simp add: mget_tabulate)
  with copy show ?thesis
    unfolding split softmax_row_gradient_eq [OF assms(4)] by (simp add: assms(3))
qed

lemma backward_softmax_loop:
  assumes "well_formed prev_grad" and "assert_same_size prev_grad out" and "n \<le> rows out"
  shows "fold (\<lambda>i r. case r of
                       Inl e \<Rightarrow> Inl e
                     | Inr grad \<Rightarrow> backward_softmax_row out prev_grad i grad)
              [0..<n] (Inr prev_grad) =
           Inr (tabulate (rows out) (cols out)
                  (\<lambda>i j. if i < n
                          then \<Sum>k\<leftarrow>[0..<cols out].
                                 mget prev_grad i k *
                                 ((if k = j then mget out i j else 0) - mget out i k * mget out i j)
                          else mget prev_grad i j))"
  using assms(3)
proof (induction n)
  case 0
  have "tabulate (rows out) (cols out) (mget prev_grad) = prev_grad"
    using tabulate_mget [OF assms(1)] assms(2) by (simp add: assert_same_size_def)
  then show ?case by simp
next
  case (Suc n)
  let ?g = "\<lambda>i j. \<Sum>k\<leftarrow>[0..<cols out]. mget prev_grad i k *
                      ((if k = j then mget out i j else 0) - mget out i k * mget out i j)"
  let ?G = "tabulate (rows out) (cols out) (\<lambda>i j. if i < n then ?g i j else mget prev_grad i j)"
  from Suc.prems have n: "n < rows out" by simp
  have cols: "cols prev_grad = cols out"
    using assms(2) by (simp add: assert_same_size_def)
  have G: "well_formed ?G" "n < rows ?G" "cols ?G = cols out"
    using n by simp_all
  have "tabulate (rows ?G) (cols out) (\<lambda>i' j. if i' = n then ?g n j else mget ?G i' j) =
        tabulate (rows out) (cols out) (\<lambda>i j. if i < Suc n then ?g i j else mget prev_grad i j)"
    unfolding tabulate_shape
    by (intro tabulate_cong) (auto simp: mget_tabulate)
  with Suc.IH n show ?case
    by (simp add: backward_softmax_row_eq [OF G cols])
qed

lemma backward_softmax_eq:
  assumes "well_formed prev_grad" and "assert_same_size prev_grad out"
  shows "backward_softmax out prev_grad =
           Inr (tabulate (rows out) (cols out)
                  (\<lambda>i j. \<Sum>k\<leftarrow>[0..<cols out].
                            mget prev_grad i k *
                            ((if k = j then mget out i j else 0) - mget out i k * mget out i j)))"
proof -
  have "tabulate (rows out) (cols out)
          (\<lambda>i j. if i < rows out
                  then \<Sum>k\<leftarrow>[0..<cols out].
                         mget prev_grad i k *
                         ((if k = j then mget out i j else 0) - mget out i k * mget out i j)
                  else mget prev_grad i j) =
        tabulate (rows out) (cols out)
          (\<lambda>i j. \<Sum>k\<leftarrow>[0..<cols out].
                    mget prev_grad i k *
                    ((if k = j then mget out i j else 0) - mget out i k * mget out i j))"
    by (intro tabulate_cong) simp
  then show ?thesis
    unfolding backward_softmax_def
    using assms(2) by (simp add: backward_softmax_loop [OF assms order_refl])
qed

subsection \<open>The softmax backward pass and the dispatchers\<close>

text \<open>
  Claim C2. For well-formed matrices \<open>out\<close> and \<open>prev_grad\<close> of the same size,
  \<open>backward_softmax\<close> succeeds with a matrix of that size whose row \<open>i\<close> is the product
  of row \<open>i\<close> of \<open>prev_grad\<close> (as a 1-row matrix) with the Jacobian built from row \<open>i\<close>
  of \<open>out\<close>; cell by cell, \<open>grad[i][j]\<close> is the sum over \<open>k\<close> of
  \<open>prev_grad[i][k] * J\<^sub>i[k][j]\<close>.
\<close>

theorem backward_softmax_rows:
  assumes "well_formed out" and "well_formed prev_grad" and "assert_same_size prev_grad out"
  shows "\<exists>grad. backward_softmax out prev_grad = Inr grad
           \<and> rows grad = rows out \<and> cols grad = cols out \<and> well_formed grad
           \<and> (\<forall>i<rows out. softmax_row_gradient out prev_grad i = Inr (get_row grad i))
           \<and> (\<forall>i<rows out. \<forall>j<cols out.
                  mget grad i j =
                    (\<Sum>k\<leftarrow>[0..<cols out].
                       mget prev_grad i k *
                       ((if k = j then mget out i j else 0) - mget out i k * mget out i j)))"
proof -
  let ?g = "\<lambda>i j. \<Sum>k\<leftarrow>[0..<cols out]. mget prev_grad i k *
                      ((if k = j then mget out i j else 0) - mget out i k * mget out i j)"
  let ?G = "tabulate (rows out) (cols out) ?g"
  have cols: "cols prev_grad = cols out"
    using assms(3) by (simp add: assert_same_size_def)
  have "get_row ?G i = tabulate 1 (cols out) (\<lambda>_. ?g i)" if "i < rows out" for i
    unfolding get_row_def tabulate_shape
    using that by (intro tabulate_cong) (simp add: mget_tabulate)
  then have "\<forall>i<rows out. softmax_row_gradient out prev_grad i = Inr (get_row ?G i)"
    by (simp add: softmax_row_gradient_eq [OF cols])
  then show ?thesis
    unfolding backward_softmax_eq [OF assms(2,3)] by (simp add: mget_tabulate)
qed

lemma upt_2: "[0..<2] = [0, 1]"
  by (simp add: upt_rec)

theorem backward_softmax_rows_witness:
  "well_formed (\<lparr>rows = 1, cols = 2, data = [1 / 4, 3 / 4]\<rparr> :: Matrix)
   \<and> well_formed (\<lparr>rows = 1, cols = 2, data = [1, 2]\<rparr> :: Matrix)
   \<and> assert_same_size (\<lparr>rows = 1, cols = 2, data = [1, 2]\<rparr> :: Matrix)
        \<lparr>rows = 1, cols = 2, data = [1 / 4, 3 / 4]\<rparr>
   \<and> (\<exists>grad. backward_softmax \<lparr>rows = 1, cols = 2, data = [1 / 4, 3 / 4]\<rparr>
                 \<lparr>rows = 1, cols = 2, data = [1, 2]\<rparr> = Inr grad
          \<and> rows grad = 1 \<and> cols grad = 2 \<and> well_formed grad
          \<and> softmax_row_gradient \<lparr>rows = 1, cols = 2, data = [1 / 4, 3 / 4]\<rparr>
                \<lparr>rows = 1, cols = 2, data = [1, 2]\<rparr> 0 = Inr (get_row grad 0)
          \<and> mget grad 0 0 = - (3 / 16) \<and> mget grad 0 1 = 3 / 16)"
proof -
  let ?out = "\<lparr>rows = 1, cols = 2, data = [1 / 4, 3 / 4]\<rparr>"
  let ?prev = "\<lparr>rows = 1, cols = 2, data = [1, 2]\<rparr>"
  have wf: "well_formed ?out" "well_formed ?prev" and same: "assert_same_size ?prev ?out"
    by (simp_all add: well_formed_def assert_same_size_def)
  from backward_softmax_rows [OF wf same] obtain grad where
    g: "backward_softmax ?out ?prev = Inr grad" "rows grad = 1" "cols grad = 2" "well_formed grad"
    and row: "\<And>i. i < 1 \<Longrightarrow> softmax_row_gradient ?out ?prev i = Inr (get_row grad i)"
    and cell: "\<And>i j. i < 1 \<Longrightarrow> j < 2 \<Longrightarrow>
                 mget grad i j =
                   (\<Sum>k\<leftarrow>[0..<2]. mget ?prev i k *
                       ((if k = j then mget ?out i j else 0) - mget ?out i k * mget ?out i j))"
    by auto
  have "softmax_row_gradient ?out ?prev 0 = Inr (get_row grad 0)"
    by (rule row) simp
  moreover have "mget grad 0 0 = - (3 / 16)" "mget grad 0 1 = 3 / 16"
    using cell [of 0 0] cell [of 0 1] by (simp_all add: mget_def upt_2)
  ultimately show ?thesis using wf same g by blast
qed

text \<open>
  Claim C6. For every activation kind, \<open>forward_activate_matrix\<close> succeeds on a
  well-formed matrix with a result of the same \<open>rows\<close> and \<open>cols\<close>, and
  \<open>backward_activate_matrix\<close> succeeds on well-formed \<open>out\<close> and \<open>grad\<close> of the same size
  with a result that has the \<open>rows\<close> and \<open>cols\<close> of \<open>out\<close>.
\<close>

theorem activation_preserves_shape:
  assumes "well_formed matrix"
    and "well_formed out" and "well_formed grad" and "assert_same_size grad out"
  shows "(\<exists>activated. forward_activate_matrix matrix a = Inr activated
            \<and> rows activated = rows matrix \<and> cols activated = cols matrix)
       \<and> (\<exists>g. backward_activate_matrix out grad a = Inr g
            \<and> rows g = rows out \<and> cols g = cols out)"
proof -
  have size: "rows grad = rows out" "cols grad = cols out"
    using assms(4) by (simp_all add: assert_same_size_def)
  have fwd: "\<exists>activated. forward_activate_matrix matrix a = Inr activated
               \<and> rows activated = rows matrix \<and> cols activated = cols matrix"
    using assms(1)
    by (cases a)
      (simp_all add: forward_activate_matrix_def forward_linear_def forward_logistic_data
        forward_tanh_data forward_relu_data forward_lrelu_data forward_softmax_eq)
  have bwd: "\<exists>g. backward_activate_matrix out grad a = Inr g
               \<and> rows g = rows out \<and> cols g = cols out"
    using assms(3,4) size
    by (cases a)
      (simp_all add: backward_activate_matrix_def backward_linear_def backward_logistic_data
        backward_tanh_data backward_relu_data backward_lrelu_data backward_softmax_eq)
  from fwd bwd show ?thesis by blast
qed

theorem activation_preserves_shape_witness:
  "well_formed (\<lparr>rows = 1, cols = 2, data = [1, - 1]\<rparr> :: Matrix)
   \<and> well_formed (\<lparr>rows = 1, cols = 2, data = [1 / 4, 3 / 4]\<rparr> :: Matrix)
   \<and> well_formed (\<lparr>rows = 1, cols = 2, data = [1, 2]\<rparr> :: Matrix)
   \<and> assert_same_size (\<lparr>rows = 1, cols = 2, data = [1, 2]\<rparr> :: Matrix)
        \<lparr>rows = 1, cols = 2, data = [1 / 4, 3 / 4]\<rparr>
   \<and> (\<exists>activated. forward_activate_matrix \<lparr>rows = 1, cols = 2, data = [1, - 1]\<rparr> SOFTMAX
                       = Inr activated
          \<and> rows activated = 1 \<and> cols activated = 2)
   \<and> (\<exists>g. backward_activate_matrix \<lparr>rows = 1, cols = 2, data = [1 / 4, 3 / 4]\<rparr>
              \<lparr>rows = 1, cols = 2, data = [1, 2]\<rparr> SOFTMAX = Inr g
          \<and> rows g = 1 \<and> cols g = 2)"
  using activation_preserves_shape
    [of "\<lparr>rows = 1, cols = 2, data = [1, - 1]\<rparr>" "\<lparr>rows = 1, cols = 2, data = [1 / 4, 3 / 4]\<rparr>"
        "\<lparr>rows = 1, cols = 2, data = [1, 2]\<rparr>" SOFTMAX]
  by (simp add: well_formed_def assert_same_size_def)

subsection \<open>Rounding to nearest\<close>

text \<open>
  Properties of \<open>round_even\<close> and \<open>nearest\<close>: the values in a given binade, the bound
  on the rounding error, idempotence, and the thresholds of overflow and of the
  subnormal range.
\<close>

lemma round_even_error: "\<bar>of_int (round_even t) - t\<bar> \<le> 1 / 2"
  unfolding round_even_def Let_def by (auto; linarith)

lemma round_even_ge_floor: "\<lfloor>t\<rfloor> \<le> round_even t"
  unfolding round_even_def Let_def by auto

lemma round_even_le_ceiling: "round_even t \<le> \<lfloor>t\<rfloor> + 1"
  unfolding round_even_def Let_def by auto

lemma round_even_of_int [simp]: "round_even (of_int k) = k"
  unfolding round_even_def Let_def by simp

lemma round_even_numeral [simp]:
  "round_even 0 = 0" "round_even 1 = 1" "round_even (numeral k) = numeral k"
  "round_even (- numeral k) = - numeral k"
  using round_even_of_int [of 0] round_even_of_int [of 1] round_even_of_int [of "numeral k"]
    round_even_of_int [of "- numeral k"]
  by simp_all

lemma round_even_nonneg: "0 \<le> t \<Longrightarrow> 0 \<le> round_even t"
  using round_even_ge_floor [of t] by (simp add: order_trans [of 0 "\<lfloor>t\<rfloor>"])

lemma floor_log2: "0 < x \<Longrightarrow> 2 powr of_int k \<le> x \<Longrightarrow> x < 2 powr of_int (k + 1) \<Longrightarrow> \<lfloor>log 2 x\<rfloor> = k"
proof -
  assume x: "0 < x" and lo: "2 powr of_int k \<le> x" and hi: "x < 2 powr of_int (k + 1)"
  have "of_int k \<le> log 2 x"
    using lo x by (simp add: le_log_iff)
  moreover have "log 2 x < of_int (k + 1)"
    using hi x by (simp add: log_less_iff)
  ultimately show ?thesis by linarith
qed

lemma powr_floor_log2_le: "0 < x \<Longrightarrow> 2 powr of_int \<lfloor>log 2 x\<rfloor> \<le> x"
proof -
  assume x: "0 < x"
  have "of_int \<lfloor>log 2 x\<rfloor> \<le> log 2 x" by simp
  then have "2 powr of_int \<lfloor>log 2 x\<rfloor> \<le> 2 powr log 2 x"
    by (simp only: powr_le_cancel_iff) 
  then show ?thesis using x by simp
qed

lemma less_powr_floor_log2: "0 < x \<Longrightarrow> x < 2 powr of_int (\<lfloor>log 2 x\<rfloor> + 1)"
proof -
  assume x: "0 < x"
  have "log 2 x < of_int (\<lfloor>log 2 x\<rfloor> + 1)" by linarith
  then have "2 powr log 2 x < 2 powr of_int (\<lfloor>log 2 x\<rfloor> + 1)"
    by (simp only: powr_less_cancel_iff) 
  then show ?thesis using x by simp
qed

lemma two_powr_int_diff: "2 powr of_int (int a - int b) = (2::real) ^ a / 2 ^ b"
proof -
  have "(2::real) powr of_int (int a - int b) = 2 powr (real a - real b)" by simp
  also have "\<dots> = 2 powr real a / 2 powr real b" by (rule powr_diff)
  also have "\<dots> = 2 ^ a / 2 ^ b" by (simp add: powr_realpow)
  finally show ?thesis .
qed

lemma two_powr_neg_int: "2 powr of_int (- int n) = 1 / (2::real) ^ n"
  using two_powr_int_diff [of 0 n] by simp

lemma two_powr_neg_real: "2 powr (- real n) = 1 / (2::real) ^ n"
  using two_powr_neg_int [of n] by simp

lemma ulp_exponent_normal:
  assumes "2 ^ 52 \<le> \<bar>x\<bar> * 2 ^ n" and "\<bar>x\<bar> * 2 ^ n < 2 ^ 53" and "n \<le> 1074"
  shows "ulp_exponent x = - int n"
proof -
  have pos: "0 < \<bar>x\<bar>"
  proof (rule ccontr)
    assume "\<not> 0 < \<bar>x\<bar>"
    then have "\<bar>x\<bar> = 0" by simp
    with assms(1) show False by simp
  qed
  have lo: "2 powr of_int (int 52 - int n) \<le> \<bar>x\<bar>"
    unfolding two_powr_int_diff using assms(1) by (simp add: field_simps)
  have "\<bar>x\<bar> < 2 powr of_int (int 53 - int n)"
    unfolding two_powr_int_diff using assms(2) by (simp add: field_simps)
  moreover have "int 53 - int n = int 52 - int n + 1" by simp
  ultimately have hi: "\<bar>x\<bar> < 2 powr of_int (int 52 - int n + 1)" by simp
  have "\<lfloor>log 2 \<bar>x\<bar>\<rfloor> = int 52 - int n"
    using pos lo hi by (rule floor_log2)
  then show ?thesis
    using assms(3) by (simp add: ulp_exponent_def)
qed

text \<open>Rounding a value of a normal binade, with the binade given.\<close>

lemma nearest_normal:
  assumes "2 ^ 52 \<le> \<bar>x\<bar> * 2 ^ n" and "\<bar>x\<bar> * 2 ^ n < 2 ^ 53" and "n \<le> 1074"
  shows "nearest x = of_int (round_even (x * 2 ^ n)) / 2 ^ n"
proof -
  have "x \<noteq> 0" using assms(1) by auto
  then show ?thesis
    by (simp add: nearest_def ulp_exponent_normal [OF assms] two_powr_neg_real)
qed

lemma ulp_exponent_subnormal:
  assumes "N = 1074" and "x \<noteq> 0" and "\<bar>x\<bar> * 2 ^ N < 2 ^ 52"
  shows "ulp_exponent x = - int N"
proof -
  have pos: "0 < \<bar>x\<bar>" using assms(2) by simp
  have "\<bar>x\<bar> < 2 powr of_int (int 52 - int N)"
    unfolding two_powr_int_diff using assms(3) by (simp add: field_simps)
  with powr_floor_log2_le [OF pos]
  have "(2::real) powr of_int \<lfloor>log 2 \<bar>x\<bar>\<rfloor> < 2 powr of_int (int 52 - int N)"
    by (rule le_less_trans)
  then have "(of_int \<lfloor>log 2 \<bar>x\<bar>\<rfloor> :: real) < of_int (int 52 - int N)"
    by (simp only: powr_less_cancel_iff)
  then have "\<lfloor>log 2 \<bar>x\<bar>\<rfloor> < int 52 - int N"
    by (simp only: of_int_less_iff)
  then show ?thesis
    unfolding ulp_exponent_def assms(1) by linarith
qed

lemma nearest_subnormal_gen:
  assumes "N = 1074" and "\<bar>x\<bar> * 2 ^ N < 2 ^ 52"
  shows "nearest x = of_int (round_even (x * 2 ^ N)) / 2 ^ N"
proof (cases "x = 0")
  case True
  then show ?thesis by (simp add: nearest_def)
next
  case False
  then show ?thesis
    by (simp add: nearest_def ulp_exponent_subnormal [OF assms(1) False assms(2)]
        two_powr_neg_real)
qed

lemma nearest_underflow_gen:
  assumes "N = 1074" and "0 \<le> x" and "x * 2 ^ Suc N < 1"
  shows "nearest x = 0"
proof -
  have small: "x * 2 ^ N < 1 / 2" using assms(3) by simp
  have "(1::real) / 2 < 2 ^ 52" by simp
  with small have "\<bar>x\<bar> * 2 ^ N < 2 ^ 52" using assms(2) by simp
  moreover have "round_even (x * 2 ^ N) = 0"
  proof -
    have "0 \<le> x * 2 ^ N" using assms(2) by simp
    with small have "\<lfloor>x * 2 ^ N\<rfloor> = 0" by (simp add: floor_eq_iff)
    with small show ?thesis by (simp add: round_even_def Let_def)
  qed
  ultimately show ?thesis by (simp add: nearest_subnormal_gen [OF assms(1)])
qed

lemma two_powr_ulp_le:
  assumes "x \<noteq> 0"
  shows "2 powr of_int (ulp_exponent x) \<le> \<bar>x\<bar> / 2 ^ 52 + 1 / 2 ^ 1074"
proof (cases "- 1074 \<le> \<lfloor>log 2 \<bar>x\<bar>\<rfloor> - 52")
  case True
  then have "ulp_exponent x = \<lfloor>log 2 \<bar>x\<bar>\<rfloor> - 52" by (simp add: ulp_exponent_def)
  then have "(2::real) powr of_int (ulp_exponent x) = 2 powr (of_int \<lfloor>log 2 \<bar>x\<bar>\<rfloor> - 52)"
    by simp
  also have "\<dots> = 2 powr of_int \<lfloor>log 2 \<bar>x\<bar>\<rfloor> / 2 powr 52" by (rule powr_diff)
  also have "\<dots> = 2 powr of_int \<lfloor>log 2 \<bar>x\<bar>\<rfloor> / 2 ^ 52" by simp
  also have "\<dots> \<le> \<bar>x\<bar> / 2 ^ 52"
    using powr_floor_log2_le [of "\<bar>x\<bar>"] assms by (simp add: divide_right_mono)
  finally show ?thesis by (simp add: add_increasing2)
next
  case False
  then have "ulp_exponent x = - 1074" by (simp add: ulp_exponent_def)
  then have "(2::real) powr of_int (ulp_exponent x) = 1 / 2 ^ 1074"
    using two_powr_neg_int [of 1074] by simp
  then show ?thesis by simp
qed

lemma nearest_error: "\<bar>nearest x - x\<bar> \<le> \<bar>x\<bar> / 2 ^ 53 + 1 / 2 ^ 1075"
proof (cases "x = 0")
  case True
  then show ?thesis by (simp add: nearest_def)
next
  case False
  let ?p = "(2::real) powr of_int (ulp_exponent x)"
  have p: "0 < ?p" by simp
  have "nearest x - x = (of_int (round_even (x / ?p)) - x / ?p) * ?p"
    using False p by (simp add: nearest_def Let_def field_simps)
  then have "\<bar>nearest x - x\<bar> = \<bar>of_int (round_even (x / ?p)) - x / ?p\<bar> * ?p"
    using p by (simp add: abs_mult)
  also have "\<dots> \<le> 1 / 2 * ?p"
    using round_even_error [of "x / ?p"] p by (intro mult_right_mono) simp_all
  also have "\<dots> \<le> 1 / 2 * (\<bar>x\<bar> / 2 ^ 52 + 1 / 2 ^ 1074)"
    using two_powr_ulp_le [OF False] by simp
  also have "\<dots> = \<bar>x\<bar> / 2 ^ 53 + 1 / 2 ^ 1075" by simp
  finally show ?thesis .
qed

lemma nearest_nonneg: "0 \<le> x \<Longrightarrow> 0 \<le> nearest x"
  by (simp add: nearest_def Let_def round_even_nonneg)

lemma round_even_abs_le: "\<bar>t\<bar> < of_int k \<Longrightarrow> \<bar>round_even t\<bar> \<le> k"
proof -
  assume "\<bar>t\<bar> < of_int k"
  with round_even_error [of t] have "\<bar>real_of_int (round_even t)\<bar> < of_int k + 1 / 2"
    by linarith
  then have "real_of_int \<bar>round_even t\<bar> < real_of_int (k + 1)" by simp
  then have "\<bar>round_even t\<bar> < k + 1" by (simp only: of_int_less_iff)
  then show ?thesis by simp
qed

lemma round_even_abs_ge: "of_int k \<le> \<bar>t\<bar> \<Longrightarrow> k \<le> \<bar>round_even t\<bar>"
proof -
  assume "of_int k \<le> \<bar>t\<bar>"
  with round_even_error [of t] have "of_int k - 1 / 2 \<le> \<bar>real_of_int (round_even t)\<bar>"
    by linarith
  then have "real_of_int (k - 1) < real_of_int \<bar>round_even t\<bar>" by simp
  then have "k - 1 < \<bar>round_even t\<bar>" by (simp only: of_int_less_iff)
  then show ?thesis by simp
qed

lemma ulp_exponent_ge: "- 1074 \<le> ulp_exponent x" "\<lfloor>log 2 \<bar>x\<bar>\<rfloor> - 52 \<le> ulp_exponent x"
  by (simp_all add: ulp_exponent_def)

text \<open>The scaled value \<open>x / 2\<^sup>e\<close> lies below \<open>2\<^sup>5\<^sup>3\<close>, and in a normal binade at or above \<open>2\<^sup>5\<^sup>2\<close>.\<close>

lemma scaled_less:
  assumes "x \<noteq> 0"
  shows "\<bar>x\<bar> / 2 powr of_int (ulp_exponent x) < 2 ^ 53"
proof -
  let ?k = "\<lfloor>log 2 \<bar>x\<bar>\<rfloor>"
  let ?e = "ulp_exponent x"
  have "\<bar>x\<bar> < 2 powr of_int (?k + 1)"
    using assms by (intro less_powr_floor_log2) simp
  also have "(2::real) powr of_int (?k + 1) \<le> 2 powr of_int (?e + 53)"
    using ulp_exponent_ge(2) [of x] by (simp only: powr_le_cancel_iff of_int_le_iff)
  also have "(2::real) powr of_int (?e + 53) = 2 powr of_int ?e * 2 powr 53"
    by (simp add: powr_add)
  finally have "\<bar>x\<bar> < 2 powr of_int ?e * 2 ^ 53" by simp
  then show ?thesis by (simp add: field_simps)
qed

lemma scaled_ge:
  assumes "x \<noteq> 0" and "- 1074 < ulp_exponent x"
  shows "2 ^ 52 \<le> \<bar>x\<bar> / 2 powr of_int (ulp_exponent x)"
proof -
  let ?k = "\<lfloor>log 2 \<bar>x\<bar>\<rfloor>"
  let ?e = "ulp_exponent x"
  have e: "?e = ?k - 52" using assms(2) by (simp add: ulp_exponent_def max_def split: if_splits)
  have "(2::real) powr of_int ?e * 2 powr 52 = 2 powr of_int (?e + 52)"
    by (simp add: powr_add)
  also have "\<dots> = 2 powr of_int ?k" using e by simp
  also have "\<dots> \<le> \<bar>x\<bar>"
    using assms(1) by (intro powr_floor_log2_le) simp
  finally have "2 powr of_int ?e * 2 ^ 52 \<le> \<bar>x\<bar>" by simp
  then show ?thesis by (simp add: field_simps)
qed

lemma ulp_exponent_scaled:
  assumes "m \<noteq> 0" and "\<bar>m\<bar> < 2 ^ 53" and "- 1074 \<le> e"
    and "- 1074 < e \<Longrightarrow> 2 ^ 52 \<le> \<bar>m\<bar>"
  shows "ulp_exponent (of_int m * 2 powr of_int e) = e"
proof -
  let ?y = "real_of_int m * 2 powr of_int e"
  have m1: "1 \<le> \<bar>real_of_int m\<bar>" using assms(1) by linarith
  have logy: "log 2 \<bar>?y\<bar> = log 2 \<bar>real_of_int m\<bar> + of_int e"
    using m1 assms(1) by (simp add: abs_mult log_mult)
  have upper: "log 2 \<bar>real_of_int m\<bar> < 53"
  proof -
    have "real_of_int \<bar>m\<bar> < real_of_int (2 ^ 53)"
      using assms(2) by (simp only: of_int_less_iff)
    then have "\<bar>real_of_int m\<bar> < 2 powr 53" by simp
    then show ?thesis using m1 by (simp add: log_less_iff)
  qed
  have fl_le: "\<lfloor>log 2 \<bar>?y\<bar>\<rfloor> \<le> 52 + e"
    unfolding logy using upper by linarith
  show ?thesis
  proof (cases "- 1074 < e")
    case False
    with assms(3) fl_le show ?thesis unfolding ulp_exponent_def by linarith
  next
    case True
    then have "2 ^ 52 \<le> \<bar>m\<bar>" by (rule assms(4))
    then have "real_of_int (2 ^ 52) \<le> real_of_int \<bar>m\<bar>"
      by (simp only: of_int_le_iff)
    then have "(2::real) powr 52 \<le> \<bar>real_of_int m\<bar>" by simp
    then have "52 \<le> log 2 \<bar>real_of_int m\<bar>" using m1 by (simp add: le_log_iff)
    then have "52 + e \<le> \<lfloor>log 2 \<bar>?y\<bar>\<rfloor>" unfolding logy by linarith
    with fl_le have "\<lfloor>log 2 \<bar>?y\<bar>\<rfloor> = 52 + e" by simp
    with True show ?thesis unfolding ulp_exponent_def by linarith
  qed
qed

lemma nearest_scaled:
  assumes "\<bar>m\<bar> \<le> 2 ^ 53" and "- 1074 \<le> e" and "- 1074 < e \<Longrightarrow> 2 ^ 52 \<le> \<bar>m\<bar>"
  shows "nearest (of_int m * 2 powr of_int e) = of_int m * 2 powr of_int e"
proof (cases "m = 0")
  case True
  then show ?thesis by (simp add: nearest_def)
next
  case False
  let ?p = "(2::real) powr of_int e"
  have p: "0 < ?p" by simp
  have y0: "real_of_int m * ?p \<noteq> 0" using False by simp
  show ?thesis
  proof (cases "\<bar>m\<bar> = 2 ^ 53")
    case False
    with assms(1) have lt: "\<bar>m\<bar> < 2 ^ 53" by simp
    have e': "ulp_exponent (of_int m * ?p) = e"
      using \<open>m \<noteq> 0\<close> lt assms(2,3) by (rule ulp_exponent_scaled)
    show ?thesis
      using y0 by (simp add: nearest_def Let_def e')
  next
    case True
    then obtain h :: int where h: "m = 2 * h" "\<bar>h\<bar> = 2 ^ 52"
      by (cases "0 \<le> m") (auto intro: that [of "2 ^ 52"] that [of "- (2 ^ 52)"])
    have eq: "real_of_int m * ?p = real_of_int h * 2 powr of_int (e + 1)"
      using h(1) by (simp add: powr_add)
    have "ulp_exponent (of_int h * 2 powr of_int (e + 1)) = e + 1"
      using h(2) assms(2) by (intro ulp_exponent_scaled) simp_all
    moreover have "real_of_int h * 2 powr of_int (e + 1) \<noteq> 0" using h(2) by auto
    ultimately have "nearest (of_int h * 2 powr of_int (e + 1)) = of_int h * 2 powr of_int (e + 1)"
      by (simp add: nearest_def Let_def)
    then show ?thesis unfolding eq .
  qed
qed

lemma nearest_idem: "nearest (nearest x) = nearest x"
proof (cases "x = 0")
  case True
  then show ?thesis by (simp add: nearest_def)
next
  case False
  let ?e = "ulp_exponent x"
  let ?t = "x / 2 powr of_int ?e"
  let ?m = "round_even ?t"
  have nx: "nearest x = of_int ?m * 2 powr of_int ?e"
    using False by (simp add: nearest_def Let_def)
  have "\<bar>?t\<bar> < real_of_int (2 ^ 53)"
    using scaled_less [OF False] by simp
  then have le: "\<bar>?m\<bar> \<le> 2 ^ 53" by (rule round_even_abs_le)
  have ge: "2 ^ 52 \<le> \<bar>?m\<bar>" if "- 1074 < ?e"
  proof -
    have "real_of_int (2 ^ 52) \<le> \<bar>?t\<bar>"
      using scaled_ge [OF False that] by simp
    then show ?thesis by (rule round_even_abs_ge)
  qed
  show ?thesis
    unfolding nx using le ulp_exponent_ge(1) ge by (rule nearest_scaled)
qed

lemma max_double_less: "max_double < 2 ^ 1024"
proof -
  have "max_double < 2 ^ 53 * 2 ^ 971"
    unfolding max_double_def by (intro mult_strict_right_mono) simp_all
  also have "\<dots> = (2::real) ^ (53 + 971)" by (simp only: power_add)
  finally show ?thesis by simp
qed

lemma nearest_overflow:
  assumes "N = 1024" and "2 ^ N \<le> x"
  shows "2 ^ N \<le> nearest x"
proof -
  have x: "0 < x" using assms(2) by (rule less_le_trans [rotated]) simp
  let ?k = "\<lfloor>log 2 x\<rfloor>"
  let ?e = "ulp_exponent x"
  have "(2::real) powr of_int (int N) \<le> x" using assms(2) by (simp add: powr_realpow)
  then have "real_of_int (int N) \<le> log 2 x" using x by (simp add: le_log_iff)
  then have k: "int N \<le> ?k" by (simp add: le_floor_iff)
  moreover have "\<bar>x\<bar> = x" using x by simp
  ultimately have e: "?e = ?k - 52"
    unfolding ulp_exponent_def assms(1) by linarith
  have t: "real_of_int (2 ^ 52) \<le> \<bar>x / 2 powr of_int ?e\<bar>"
    using scaled_ge [of x] x e k assms(1) by simp
  have "0 \<le> round_even (x / 2 powr of_int ?e)"
    using x by (intro round_even_nonneg) simp
  with round_even_abs_ge [OF t] have m: "2 ^ 52 \<le> round_even (x / 2 powr of_int ?e)" by simp
  have "(2::real) ^ N = 2 powr of_int (int N)" by (simp add: powr_realpow)
  also have "\<dots> \<le> 2 powr of_int ?k"
    using k by (simp only: powr_le_cancel_iff of_int_le_iff)
  also have "\<dots> = 2 powr 52 * 2 powr of_int ?e"
    unfolding e by (simp add: powr_diff)
  also have "\<dots> = 2 ^ 52 * 2 powr of_int ?e" by simp
  also have "\<dots> \<le> real_of_int (round_even (x / 2 powr of_int ?e)) * 2 powr of_int ?e"
    using m by (intro mult_right_mono) (simp_all add: of_int_le_iff [symmetric] del: of_int_le_iff)
  also have "\<dots> = nearest x" using x by (simp add: nearest_def Let_def)
  finally show ?thesis .
qed

text \<open>Rounding does not cross \<open>2\<^sup>-\<^sup>1\<^sup>0\<^sup>2\<^sup>2\<close>, the smallest normal number, from above.\<close>

lemma nearest_ge_normal:
  assumes "N = 1022" and "1 / 2 ^ N \<le> x"
  shows "1 / 2 ^ N \<le> nearest x"
proof -
  have x: "0 < x" using assms(2) by (rule less_le_trans [rotated]) simp
  let ?k = "\<lfloor>log 2 x\<rfloor>"
  let ?e = "ulp_exponent x"
  have "(2::real) powr of_int (- int N) \<le> x" using assms(2) by (simp only: two_powr_neg_int)
  then have "real_of_int (- int N) \<le> log 2 x" using x by (simp add: le_log_iff)
  then have k: "- int N \<le> ?k" by (simp add: le_floor_iff)
  moreover have ax: "\<bar>x\<bar> = x" using x by simp
  ultimately have e: "?e = ?k - 52"
    unfolding ulp_exponent_def assms(1) by linarith
  have "(2::real) powr of_int ?e * 2 powr 52 = 2 powr of_int (?e + 52)"
    by (simp add: powr_add)
  also have "\<dots> = 2 powr of_int ?k" using e by simp
  also have "\<dots> \<le> x" using x by (intro powr_floor_log2_le)
  finally have "2 powr of_int ?e * 2 ^ 52 \<le> x" by simp
  then have "2 ^ 52 \<le> x / 2 powr of_int ?e" by (simp add: field_simps)
  then have t: "real_of_int (2 ^ 52) \<le> \<bar>x / 2 powr of_int ?e\<bar>" using x by simp
  have "0 \<le> round_even (x / 2 powr of_int ?e)"
    using x by (intro round_even_nonneg) simp
  with round_even_abs_ge [OF t] have m: "2 ^ 52 \<le> round_even (x / 2 powr of_int ?e)" by simp
  have "1 / (2::real) ^ N = 2 powr of_int (- int N)" by (simp only: two_powr_neg_int)
  also have "\<dots> \<le> 2 powr of_int ?k"
    using k by (simp only: powr_le_cancel_iff of_int_le_iff)
  also have "\<dots> = 2 powr 52 * 2 powr of_int ?e"
    unfolding e by (simp add: powr_diff)
  also have "\<dots> = 2 ^ 52 * 2 powr of_int ?e" by simp
  also have "\<dots> \<le> real_of_int (round_even (x / 2 powr of_int ?e)) * 2 powr of_int ?e"
    using m by (intro mult_right_mono) (simp_all add: of_int_le_iff [symmetric] del: of_int_le_iff)
  also have "\<dots> = nearest x" using x by (simp add: nearest_def Let_def)
  finally show ?thesis .
qed

text \<open>Below \<open>2\<^sup>-\<^sup>1\<^sup>0\<^sup>2\<^sup>2\<close> the doubles are the multiples of \<open>2\<^sup>-\<^sup>1\<^sup>0\<^sup>7\<^sup>4\<close>.\<close>

lemma subnormal_multiple:
  assumes "N = 1074" and "nearest x = x" and "\<bar>x\<bar> * 2 ^ N < 2 ^ 52"
  obtains k :: int where "x = of_int k / 2 ^ N"
  using nearest_subnormal_gen [OF assms(1,3)] assms(2) by (intro that [of "round_even (x * 2 ^ N)"]) simp

lemma nearest_multiple:
  assumes "N = 1074" and "\<bar>of_int k / 2 ^ N\<bar> * 2 ^ N < (2::real) ^ 52"
  shows "nearest (of_int k / 2 ^ N) = of_int k / 2 ^ N"
  using nearest_subnormal_gen [OF assms] by simp

lemma subnormal_range:
  assumes "N = 1074"
  shows "((x::real) * 2 ^ N < 2 ^ 52) = (x < 1 / 2 ^ 1022)"
proof -
  define P :: real where "P = 2 ^ 1022"
  have P: "0 < P" by (simp add: P_def)
  have "(2::real) ^ N = 2 ^ (52 + 1022)" unfolding assms by simp
  also have "\<dots> = 2 ^ 52 * P" unfolding P_def by (rule power_add)
  finally have "(x * 2 ^ N < 2 ^ 52) = (x * P * 2 ^ 52 < 1 * 2 ^ 52)" by (simp add: mult.assoc mult.commute)
  also have "\<dots> = (x * P < 1)" by (simp only: mult_less_cancel_right_pos zero_less_power zero_less_numeral)
  also have "\<dots> = (x < 1 / P)" using P by (simp add: field_simps)
  finally show ?thesis by (simp add: P_def)
qed

subsection \<open>The arithmetic of doubles\<close>

text \<open>
  Rounding a double again leaves it unchanged; adding to zero and the commutation of the
  product; the exponential at the inputs \<open>0\<close>, \<open>1000\<close> (overflow) and \<open>-1000\<close>
  (underflow to zero).
\<close>

lemma max_double_ge: "2 ^ 54 \<le> max_double"
proof -
  have "(2::real) ^ 54 = 2 ^ 52 * 2 ^ 2" by simp
  also have "\<dots> \<le> (2 ^ 53 - 1) * 2 ^ 971"
    by (intro mult_mono power_increasing) simp_all
  finally show ?thesis by (simp only: max_double_def)
qed

lemma max_double_ge_4: "4 \<le> max_double"
  using max_double_ge by simp

lemma fl_Finite: "\<bar>nearest x\<bar> \<le> max_double \<Longrightarrow> fl x = Finite (nearest x)"
  by (simp add: fl_def)

lemma fl_idem: "fl x = Finite y \<Longrightarrow> fl y = Finite y"
  by (auto simp: fl_def nearest_idem split: if_splits)

lemma fl_cases:
  obtains y where "fl x = Finite y" "y = nearest x" "\<bar>y\<bar> \<le> max_double"
  | "fl x = PInf" | "fl x = NInf"
  by (cases "max_double < \<bar>nearest x\<bar>"; cases "0 < x") (auto simp: fl_def)

lemma dadd_zero_fl: "dadd (Finite 0) (fl x) = fl x"
  by (rule fl_cases [of x]) (auto dest: fl_idem)

lemma dadd_zero_dmul: "dadd (Finite 0) (dmul a b) = dmul a b"
  by (cases a; cases b) (simp_all add: dadd_zero_fl)

lemma dmul_commute: "dmul a b = dmul b a"
  by (cases a; cases b) (auto simp: mult.commute)

lemma exp_1000_ge: "(2::real) ^ 1076 \<le> exp 1000"
proof -
  have "(2::real) ^ 11 \<le> (3 / 2) ^ 20" by (simp add: power_divide)
  then have "((2::real) ^ 11) ^ 100 \<le> ((3 / 2) ^ 20) ^ 100"
    by (intro power_mono) simp_all
  moreover have "((2::real) ^ 11) ^ 100 = 2 ^ (11 * 100)"
    and "(((3::real) / 2) ^ 20) ^ 100 = (3 / 2) ^ (20 * 100)"
    by (rule power_mult [symmetric])+
  ultimately have "(2::real) ^ 1100 \<le> (3 / 2) ^ 2000" by simp
  moreover have "(2::real) ^ 1076 \<le> 2 ^ 1100" by (intro power_increasing) simp_all
  ultimately have "(2::real) ^ 1076 \<le> (3 / 2) ^ 2000" by (rule order_trans [rotated])
  also have "\<dots> \<le> exp (1 / 2) ^ 2000"
    using exp_ge_add_one_self [of "1 / 2"] by (intro power_mono) simp_all
  also have "\<dots> = exp (of_nat 2000 * (1 / 2))" by (simp only: exp_of_nat_mult)
  finally show ?thesis by simp
qed

lemma exp_double_0: "exp_double (Finite 0) = Finite 1"
proof -
  have "nearest 1 = 1"
    by (subst nearest_normal [where n = 52]) simp_all
  then show ?thesis
    using max_double_ge_4 by (simp add: fl_def)
qed

lemma exp_double_1000: "exp_double (Finite 1000) = PInf"
proof -
  have "(2::real) ^ 1024 \<le> 2 ^ 1076" by (intro power_increasing) simp_all
  from this exp_1000_ge have "(2::real) ^ 1024 \<le> exp 1000" by (rule order_trans)
  then have "2 ^ 1024 \<le> nearest (exp 1000)" by (rule nearest_overflow [OF refl])
  with max_double_less have "max_double < \<bar>nearest (exp 1000)\<bar>" by linarith
  then show ?thesis by (simp add: fl_def)
qed

lemma exp_double_minus_1000: "exp_double (Finite (- 1000)) = Finite 0"
proof -
  have "exp (- 1000) * 2 ^ Suc 1074 = 2 ^ 1075 / exp (1000::real)"
    by (simp add: exp_minus field_simps)
  also have "\<dots> < 1"
  proof -
    have "(2::real) ^ 1075 < 2 ^ 1076" by (intro power_strict_increasing) simp_all
    from this exp_1000_ge have "(2::real) ^ 1075 < exp 1000" by (rule less_le_trans)
    then show ?thesis by simp
  qed
  finally have "nearest (exp (- 1000)) = 0"
    by (intro nearest_underflow_gen [OF refl]) simp_all
  then show ?thesis
    using max_double_ge_4 by (simp add: fl_def)
qed

subsection \<open>Softmax on double-precision cells in closed form\<close>

text \<open>
  The loops of \<open>forward_softmax\<close> and \<open>softmax_jacobian\<close> on double-precision cells, by
  the same inductions as over exact cells.
\<close>

lemma exp_loop_pair_double:
  "fold (\<lambda>j (sum_row, activated).
           let x = mget activated i j; fx = ex x
           in (dadd sum_row fx, mset activated i j fx)) [0..<n] (s0, m) =
     (fold (\<lambda>j sum_row. dadd sum_row (ex (mget m i j))) [0..<n] s0,
      fold (\<lambda>j a. mset a i j (ex (mget a i j))) [0..<n] m)"
proof (induction n)
  case 0
  then show ?case by simp
next
  case (Suc n)
  have "mget (fold (\<lambda>j a. mset a i j (ex (mget a i j))) [0..<n] m) i n = mget m i n"
    by (rule row_loop_untouched [where h = "\<lambda>_. ex"]) simp
  with Suc show ?case by (simp add: Let_def)
qed

lemma softmax_exp_row_double_eq:
  assumes "well_formed m" and "i < rows m"
  shows "softmax_exp_row_double ex i m =
           (row_exp_sum_double ex m i,
            tabulate (rows m) (cols m) (\<lambda>i' j. if i' = i then ex (mget m i j) else mget m i' j))"
  unfolding softmax_exp_row_double_def exp_loop_pair_double row_exp_sum_double_def
  using row_update_loop [OF assms, of "\<lambda>_. ex"] by simp

lemma softmax_div_row_double_eq:
  assumes "well_formed m" and "i < rows m"
  shows "softmax_div_row_double i s m =
           tabulate (rows m) (cols m)
             (\<lambda>i' j. if i' = i then (if deq s (Finite 0) then Finite 0 else ddiv (mget m i j) s)
                      else mget m i' j)"
  unfolding softmax_div_row_double_def Let_def
  using row_update_loop [OF assms, of "\<lambda>_ x. if deq s (Finite 0) then Finite 0 else ddiv x s"]
  by simp

lemma softmax_row_step_double:
  assumes "well_formed m" and "i < rows m"
  shows "(case softmax_exp_row_double ex i m of
            (sum_row, activated) \<Rightarrow> softmax_div_row_double i sum_row activated) =
           tabulate (rows m) (cols m)
             (\<lambda>i' j. if i' = i
                      then (if deq (row_exp_sum_double ex m i) (Finite 0) then Finite 0
                            else ddiv (ex (mget m i j)) (row_exp_sum_double ex m i))
                      else mget m i' j)"
proof -
  let ?A = "tabulate (rows m) (cols m) (\<lambda>i' j. if i' = i then ex (mget m i j) else mget m i' j)"
  have A: "well_formed ?A" "i < rows ?A" using assms(2) by simp_all
  have "softmax_div_row_double i (row_exp_sum_double ex m i) ?A =
          tabulate (rows m) (cols m)
            (\<lambda>i' j. if i' = i
                     then (if deq (row_exp_sum_double ex m i) (Finite 0) then Finite 0
                           else ddiv (ex (mget m i j)) (row_exp_sum_double ex m i))
                     else mget m i' j)"
    unfolding softmax_div_row_double_eq [OF A] tabulate_shape
    using assms(2) by (intro tabulate_cong) (simp add: mget_tabulate)
  then show ?thesis
    by (simp add: softmax_exp_row_double_eq [OF assms])
qed

lemma row_exp_sum_double_cong:
  "cols a = cols b \<Longrightarrow> (\<And>j. j < cols b \<Longrightarrow> mget a i j = mget b i j) \<Longrightarrow>
   row_exp_sum_double ex a i = row_exp_sum_double ex b i"
  unfolding row_exp_sum_double_def by (intro fold_cong) simp_all

lemma forward_softmax_double_loop:
  assumes "well_formed m" and "n \<le> rows m"
  shows "fold (\<lambda>i activated.
                 case softmax_exp_row_double ex i activated of
                   (sum_row, activated) \<Rightarrow> softmax_div_row_double i sum_row activated) [0..<n] m =
           tabulate (rows m) (cols m)
             (\<lambda>i j. if i < n
                     then (if deq (row_exp_sum_double ex m i) (Finite 0) then Finite 0
                           else ddiv (ex (mget m i j)) (row_exp_sum_double ex m i))
                     else mget m i j)"
  using assms(2)
proof (induction n)
  case 0
  then show ?case by (simp add: tabulate_mget [OF assms(1)])
next
  case (Suc n)
  let ?v = "\<lambda>i j. if deq (row_exp_sum_double ex m i) (Finite 0) then Finite 0
                   else ddiv (ex (mget m i j)) (row_exp_sum_double ex m i)"
  let ?F = "tabulate (rows m) (cols m) (\<lambda>i j. if i < n then ?v i j else mget m i j)"
  from Suc.prems have n: "n < rows m" by simp
  have F: "well_formed ?F" "n < rows ?F" using n by simp_all
  have cellF: "mget ?F n j = mget m n j" if "j < cols m" for j
    using that n by (simp add: mget_tabulate)
  have sumF: "row_exp_sum_double ex ?F n = row_exp_sum_double ex m n"
    by (rule row_exp_sum_double_cong) (simp_all add: cellF)
  have "tabulate (rows ?F) (cols ?F)
          (\<lambda>i' j. if i' = n
                   then (if deq (row_exp_sum_double ex ?F n) (Finite 0) then Finite 0
                         else ddiv (ex (mget ?F n j)) (row_exp_sum_double ex ?F n))
                   else mget ?F i' j) =
        tabulate (rows m) (cols m) (\<lambda>i j. if i < Suc n then ?v i j else mget m i j)"
    unfolding tabulate_shape sumF
    by (intro tabulate_cong) (auto simp: mget_tabulate cellF)
  with Suc.IH n show ?case
    by (simp add: softmax_row_step_double [OF F])
qed

lemma forward_softmax_double_eq:
  assumes "well_formed m"
  shows "forward_softmax_double ex m =
           tabulate (rows m) (cols m)
             (\<lambda>i j. if deq (row_exp_sum_double ex m i) (Finite 0) then Finite 0
                     else ddiv (ex (mget m i j)) (row_exp_sum_double ex m i))"
  unfolding forward_softmax_double_def forward_softmax_double_loop [OF assms order_refl]
  by (intro tabulate_cong) simp

lemma diag_loop_double:
  "fold (\<lambda>i jacobian.
           fold (\<lambda>j jacobian. if i = j then mset jacobian i j (v j) else jacobian)
                [0..<c] jacobian)
        [0..<c] (new_matrix_double c c) =
     tabulate c c (\<lambda>i j. if i = j then v j else Finite 0)"
proof -
  let ?idx = "\<lambda>i. i * c + i"
  let ?Z = "replicate (c * c) (Finite 0)"
  let ?L = "fold (\<lambda>i xs. xs[?idx i := v i]) [0..<c] ?Z"
  have inner: "fold (\<lambda>i jacobian.
                  fold (\<lambda>j jacobian. if i = j then mset jacobian i j (v j) else jacobian)
                       [0..<c] jacobian) [0..<c] (new_matrix_double c c) =
               fold (\<lambda>i jacobian. mset jacobian i i (v i)) [0..<c] (new_matrix_double c c)"
    by (intro fold_cong) (simp_all add: diag_inner_loop fun_eq_iff)
  have lift: "fold (\<lambda>i jacobian. mset jacobian i i (v i)) [0..<c] (new_matrix_double c c) =
                (new_matrix_double c c)\<lparr>data := ?L\<rparr>"
    using fold_mset_data [where p = "\<lambda>i. i" and q = "\<lambda>i. i" and h = "\<lambda>i _. v i"
        and m = "new_matrix_double c c" and js = "[0..<c]"]
    by (simp add: new_matrix_double_def)
  have inj: "inj_on ?idx {..<c}"
    by (rule inj_onI) (simp add: cell_index_eq)
  have cell: "?L ! k = (if k div c = k mod c then v (k mod c) else Finite 0)" if k: "k < c * c" for k
  proof -
    from k have c: "0 < c" by (cases c) simp_all
    have kdm: "k div c * c + k mod c = k" by simp
    have m: "k mod c < c" using c by simp
    show ?thesis
    proof (cases "k div c = k mod c")
      case True
      then have k_eq: "k = ?idx (k mod c)" using kdm by simp
      have "?L ! ?idx (k mod c) = v (k mod c)"
        using fold_update_at [OF inj m, where h = "\<lambda>i _. v i" and xs = ?Z] k k_eq by simp
      with True k_eq show ?thesis by simp
    next
      case False
      have "k \<notin> ?idx ` set [0..<c]"
      proof
        assume "k \<in> ?idx ` set [0..<c]"
        then obtain i where "k = i * c + i" "i \<in> set [0..<c]" by (rule imageE)
        then have "k div c = i" "k mod c = i" by simp_all
        with False show False by simp
      qed
      then have "?L ! k = ?Z ! k"
        by (rule fold_update_other [where h = "\<lambda>i _. v i"])
      with False k show ?thesis by simp
    qed
  qed
  have "?L = map (\<lambda>k. if k div c = k mod c then v (k mod c) else Finite 0) [0..<c * c]"
    using cell
    by (intro nth_equalityI) (simp_all add: fold_update_length [where h = "\<lambda>i _. v i"])
  then show ?thesis
    unfolding inner lift by (simp add: tabulate_def new_matrix_double_def)
qed

lemma softmax_jacobian_double_eq:
  assumes "rows out_row = 1"
  shows "softmax_jacobian_double out_row =
           Inr (tabulate (cols out_row) (cols out_row)
                  (\<lambda>i j. dsub (if i = j then mget out_row 0 j else Finite 0)
                               (dmul (mget out_row 0 i) (mget out_row 0 j))))"
proof -
  let ?c = "cols out_row"
  let ?D = "tabulate ?c ?c (\<lambda>i j. if i = j then mget out_row 0 j else Finite 0)"
  let ?O = "tabulate ?c ?c (\<lambda>i j. dmul (mget (transpose_matrix out_row) i 0) (mget out_row 0 j))"
  have outer: "matrix_mult_double (transpose_matrix out_row) out_row = Inr ?O"
    using assms by (simp add: matrix_mult_double_def dadd_zero_dmul)
  have sub: "matrix_sub_double ?D ?O = Inr (tabulate ?c ?c (\<lambda>i j. dsub (mget ?D i j) (mget ?O i j)))"
    by (simp add: matrix_sub_double_def assert_same_size_def)
  have entries: "tabulate ?c ?c (\<lambda>i j. dsub (mget ?D i j) (mget ?O i j)) =
                 tabulate ?c ?c (\<lambda>i j. dsub (if i = j then mget out_row 0 j else Finite 0)
                                             (dmul (mget out_row 0 i) (mget out_row 0 j)))"
    using assms by (intro tabulate_cong) (simp add: mget_tabulate mget_transpose)
  show ?thesis
    unfolding softmax_jacobian_double_def diag_loop_double Let_def outer
    using assms by (simp add: sub entries)
qed

subsection \<open>The softmax Jacobian on double-precision cells\<close>

lemma fl_zero [simp]: "fl 0 = Finite 0"
  using max_double_ge_4 by (simp add: fl_def nearest_def)

text \<open>Rounding a value whose binade is given.\<close>

lemma fl_normal:
  assumes "2 ^ 52 \<le> \<bar>x\<bar> * 2 ^ n" and "\<bar>x\<bar> * 2 ^ n < 2 ^ 53" and "n \<le> 1074"
  shows "fl x = Finite (of_int (round_even (x * 2 ^ n)) / 2 ^ n)"
proof -
  have "\<bar>x\<bar> * 1 \<le> \<bar>x\<bar> * 2 ^ n" by (intro mult_left_mono) simp_all
  with assms(2) have x: "\<bar>x\<bar> < 2 ^ 53" by simp
  have "\<bar>nearest x\<bar> \<le> \<bar>x\<bar> + \<bar>nearest x - x\<bar>" by simp
  also have "\<dots> \<le> \<bar>x\<bar> + (\<bar>x\<bar> / 2 ^ 53 + 1 / 2 ^ 1075)"
    using nearest_error [of x] by simp
  also have "\<dots> \<le> 2 ^ 53 + (2 ^ 53 / 2 ^ 53 + 1 / 2 ^ 1075)"
    using x by (intro add_mono divide_right_mono) simp_all
  also have "\<dots> \<le> 2 ^ 54" by simp
  finally have "\<bar>nearest x\<bar> \<le> max_double" using max_double_ge by simp
  then show ?thesis
    by (simp add: fl_def nearest_normal [OF assms])
qed

lemma tabulate_1_1: "tabulate 1 1 f = \<lparr>rows = 1, cols = 1, data = [f 0 0]\<rparr>"
  by (simp add: tabulate_def)

lemma tabulate_1_2: "tabulate 1 2 f = \<lparr>rows = 1, cols = 2, data = [f 0 0, f 0 1]\<rparr>"
  by (simp add: tabulate_def upt_2)

lemma upt_4: "[0..<4] = [0, 1, 2, 3]"
  by (simp add: upt_rec)

lemma tabulate_2_2:
  "tabulate 2 2 f = \<lparr>rows = 2, cols = 2, data = [f 0 0, f 0 1, f 1 0, f 1 1]\<rparr>"
  by (simp add: tabulate_def upt_4)

lemma tenth_squared:
  "dmul (Finite (3602879701896397 / 36028797018963968))
        (Finite (3602879701896397 / 36028797018963968)) =
   Finite (1441151880758559 / 144115188075855872)"
  unfolding dmul.simps
  by (subst fl_normal [where n = 59]) (simp_all add: round_even_def Let_def)

lemma tenth_diagonal:
  "dsub (Finite (3602879701896397 / 36028797018963968))
        (Finite (1441151880758559 / 144115188075855872)) =
   Finite (3242591731706757 / 36028797018963968)"
  unfolding dsub.simps
  by (subst fl_normal [where n = 56]) (simp_all add: round_even_def Let_def)

lemma tenth_complement:
  "dsub (Finite 1) (Finite (3602879701896397 / 36028797018963968)) =
   Finite (8106479329266893 / 9007199254740992)"
  unfolding dsub.simps
  by (subst fl_normal [where n = 53]) (simp_all add: round_even_def Let_def)

lemma tenth_factored:
  "dmul (Finite (3602879701896397 / 36028797018963968))
        (Finite (8106479329266893 / 9007199254740992)) =
   Finite (6485183463413515 / 72057594037927936)"
  unfolding dmul.simps
  by (subst fl_normal [where n = 56]) (simp_all add: round_even_def Let_def)

text \<open>
  Claim C1, as stated, fails on the diagonal. For the row holding the double nearest to
  \<open>0.1\<close>, which is \<open>3602879701896397 / 2\<^sup>5\<^sup>5\<close>, the code returns
  \<open>r - r * r\<close> rounded twice, \<open>3242591731706757 / 2\<^sup>5\<^sup>5\<close> (printed \<open>0.09\<close>), while the
  factored form \<open>r * (1 - r)\<close> of the claim is \<open>6485183463413515 / 2\<^sup>5\<^sup>6\<close> (printed
  \<open>0.09000000000000001\<close>) when evaluated in double precision, one unit in the last place
  above; nor is the code's cell the exact product \<open>r * (1 - r)\<close>.
\<close>

theorem softmax_jacobian_factored_counterexample:
  "softmax_jacobian_double
     \<lparr>rows = 1, cols = 1, data = [Finite (3602879701896397 / 36028797018963968)]\<rparr> =
   Inr \<lparr>rows = 1, cols = 1, data = [Finite (3242591731706757 / 36028797018963968)]\<rparr>
   \<and> dmul (Finite (3602879701896397 / 36028797018963968))
        (dsub (Finite 1) (Finite (3602879701896397 / 36028797018963968))) =
     Finite (6485183463413515 / 72057594037927936)
   \<and> Finite (3242591731706757 / 36028797018963968)
     \<noteq> Finite (6485183463413515 / 72057594037927936)
   \<and> (3242591731706757 / 36028797018963968 :: real)
     \<noteq> 3602879701896397 / 36028797018963968 * (1 - 3602879701896397 / 36028797018963968)"
proof -
  let ?r = "\<lparr>rows = 1, cols = 1, data = [Finite (3602879701896397 / 36028797018963968)]\<rparr>"
  have cell: "mget ?r 0 0 = Finite (3602879701896397 / 36028797018963968)"
    by (simp add: mget_def)
  have "softmax_jacobian_double ?r =
          Inr \<lparr>rows = 1, cols = 1, data = [Finite (3242591731706757 / 36028797018963968)]\<rparr>"
    by (simp add: softmax_jacobian_double_eq tabulate_1_1 cell tenth_squared tenth_diagonal
        del: dmul.simps dsub.simps One_nat_def)
  moreover have "dmul (Finite (3602879701896397 / 36028797018963968))
        (dsub (Finite 1) (Finite (3602879701896397 / 36028797018963968))) =
     Finite (6485183463413515 / 72057594037927936)"
    by (simp only: tenth_complement tenth_factored)
  ultimately show ?thesis by simp
qed

text \<open>
  A cell \<open>a - x * y\<close> of the Jacobian, rounded twice, is within \<open>2\<^sup>-\<^sup>5\<^sup>1\<close> of the exact
  value when \<open>a\<close>, \<open>x\<close> and \<open>y\<close> lie between 0 and 1.
\<close>

lemma jacobian_cell_error:
  assumes "0 \<le> a" and "a \<le> 1" and "0 \<le> x" and "x \<le> 1" and "0 \<le> y" and "y \<le> 1"
  shows "\<exists>z. dsub (Finite a) (dmul (Finite x) (Finite y)) = Finite z
             \<and> \<bar>z - (a - x * y)\<bar> \<le> 1 / 2 ^ 51"
proof -
  define u :: real where "u = 1 / 2 ^ 53"
  define eta :: real where "eta = 1 / 2 ^ 1075"
  have u: "0 < u" "u \<le> 1 / 8" and eta: "0 \<le> eta" "8 * eta \<le> u"
    by (simp_all add: u_def eta_def)
  have err: "\<bar>nearest t - t\<bar> \<le> \<bar>t\<bar> * u + eta" for t
    using nearest_error [of t] by (simp add: u_def eta_def)
  define p where "p = nearest (x * y)"
  have xy: "0 \<le> x * y" "x * y \<le> 1"
    using assms by (simp_all add: mult_le_one)
  have "\<bar>x * y\<bar> * u \<le> 1 * u" using xy u by (intro mult_right_mono) simp_all
  with err [of "x * y"] have p: "\<bar>p - x * y\<bar> \<le> u + eta" by (simp add: p_def)
  then have "\<bar>p\<bar> \<le> 4" using xy u eta by linarith
  then have mul: "dmul (Finite x) (Finite y) = Finite p"
    using max_double_ge_4 by (simp add: fl_def p_def)
  define z where "z = nearest (a - p)"
  have ap: "\<bar>a - p\<bar> \<le> 2" using p xy assms(1,2) u eta by linarith
  have "\<bar>a - p\<bar> * u \<le> 2 * u" using ap u by (intro mult_right_mono) simp_all
  then have "\<bar>z - (a - p)\<bar> \<le> 2 * u + eta" using err [of "a - p"] by (simp add: z_def)
  with p have near: "\<bar>z - (a - x * y)\<bar> \<le> 4 * u" using eta by linarith
  then have "\<bar>z\<bar> \<le> 4" using xy assms(1,2) u by linarith
  then have "dsub (Finite a) (Finite p) = Finite z"
    using max_double_ge_4 by (simp add: fl_def z_def)
  moreover have "4 * u = 1 / 2 ^ 51" by (simp add: u_def)
  ultimately show ?thesis using mul near by simp
qed

text \<open>
  Claim C1, amended. For a well-formed matrix \<open>out_row\<close> of double-precision cells with
  one row and \<open>C\<close> columns, \<open>softmax_jacobian\<close> succeeds with a well-formed \<open>C \<times> C\<close>
  matrix \<open>J\<close> whose cell \<open>(i, j)\<close> is the rounded difference of the diagonal cell
  (\<open>out_row[j]\<close> when \<open>i = j\<close>, zero otherwise) and the rounded product
  \<open>out_row[i] * out_row[j]\<close>: the cell of \<open>diag(out_row) - out_row\<^sup>T * out_row\<close>, in
  this order of operations. When \<open>out_row[i]\<close> and \<open>out_row[j]\<close> lie between 0 and 1,
  that cell is within \<open>2\<^sup>-\<^sup>5\<^sup>1\<close> of \<open>out_row[j] * (\<delta>\<^sub>i\<^sub>j - out_row[i])\<close>.
\<close>

theorem softmax_jacobian_double_cells:
  assumes "well_formed out_row" and "rows out_row = 1"
  shows "\<exists>J. softmax_jacobian_double out_row = Inr J
           \<and> rows J = cols out_row \<and> cols J = cols out_row \<and> well_formed J
           \<and> (\<forall>i<cols out_row. \<forall>j<cols out_row.
                  mget J i j = dsub (if i = j then mget out_row 0 j else Finite 0)
                                    (dmul (mget out_row 0 i) (mget out_row 0 j)))
           \<and> (\<forall>i<cols out_row. \<forall>j<cols out_row. \<forall>x y.
                  mget out_row 0 i = Finite x \<and> 0 \<le> x \<and> x \<le> 1
                  \<and> mget out_row 0 j = Finite y \<and> 0 \<le> y \<and> y \<le> 1 \<longrightarrow>
                  (\<exists>z. mget J i j = Finite z
                       \<and> \<bar>z - y * ((if i = j then 1 else 0) - x)\<bar> \<le> 1 / 2 ^ 51))"
proof -
  let ?c = "\<lambda>i j. dsub (if i = j then mget out_row 0 j else Finite 0)
                        (dmul (mget out_row 0 i) (mget out_row 0 j))"
  have near: "\<exists>z. ?c i j = Finite z \<and> \<bar>z - y * ((if i = j then 1 else 0) - x)\<bar> \<le> 1 / 2 ^ 51"
    if h: "mget out_row 0 i = Finite x \<and> 0 \<le> x \<and> x \<le> 1
         \<and> mget out_row 0 j = Finite y \<and> 0 \<le> y \<and> y \<le> 1" for i j x y
  proof (cases "i = j")
    case True
    with h have "Finite x = Finite y" by metis
    then have "x = y" by simp
    with True h jacobian_cell_error [of y y y] show ?thesis
      by (simp add: algebra_simps)
  next
    case False
    with h jacobian_cell_error [of 0 x y] show ?thesis
      by (simp add: algebra_simps)
  qed
  show ?thesis
    unfolding softmax_jacobian_double_eq [OF assms(2)]
    using near by (simp add: mget_tabulate)
qed

lemma fl_sixteenths:
  "fl (1 / 16) = Finite (1 / 16)" "fl (3 / 16) = Finite (3 / 16)"
  "fl (- (3 / 16)) = Finite (- (3 / 16))" "fl (9 / 16) = Finite (9 / 16)"
proof -
  show "fl (1 / 16) = Finite (1 / 16)"
    by (subst fl_normal [where n = 56]) simp_all
  show "fl (3 / 16) = Finite (3 / 16)"
    by (subst fl_normal [where n = 55]) simp_all
  show "fl (- (3 / 16)) = Finite (- (3 / 16))"
    by (subst fl_normal [where n = 55]) simp_all
  show "fl (9 / 16) = Finite (9 / 16)"
    by (subst fl_normal [where n = 53]) simp_all
qed

theorem softmax_jacobian_double_cells_witness:
  "well_formed \<lparr>rows = 1, cols = 2, data = [Finite (1 / 4), Finite (3 / 4)]\<rparr>
   \<and> rows \<lparr>rows = 1, cols = 2, data = [Finite (1 / 4), Finite (3 / 4)]\<rparr> = 1
   \<and> mget \<lparr>rows = 1, cols = 2, data = [Finite (1 / 4), Finite (3 / 4)]\<rparr> 0 0 = Finite (1 / 4)
   \<and> mget \<lparr>rows = 1, cols = 2, data = [Finite (1 / 4), Finite (3 / 4)]\<rparr> 0 1 = Finite (3 / 4)
   \<and> (\<exists>J. softmax_jacobian_double
               \<lparr>rows = 1, cols = 2, data = [Finite (1 / 4), Finite (3 / 4)]\<rparr> = Inr J
          \<and> rows J = 2 \<and> cols J = 2 \<and> well_formed J
          \<and> mget J 0 0 = Finite (3 / 16) \<and> mget J 0 1 = Finite (- (3 / 16))
          \<and> mget J 1 0 = Finite (- (3 / 16)) \<and> mget J 1 1 = Finite (3 / 16)
          \<and> (\<exists>z. mget J 0 1 = Finite z \<and> \<bar>z - 3 / 4 * (0 - 1 / 4)\<bar> \<le> 1 / 2 ^ 51))"
proof -
  let ?r = "\<lparr>rows = 1, cols = 2, data = [Finite (1 / 4), Finite (3 / 4)]\<rparr>"
  have wf: "well_formed ?r" and one: "rows ?r = 1"
    by (simp_all add: well_formed_def)
  have r: "mget ?r 0 0 = Finite (1 / 4)" "mget ?r 0 1 = Finite (3 / 4)"
    by (simp_all add: mget_def)
  from softmax_jacobian_double_cells [OF wf one] obtain J where
    J: "softmax_jacobian_double ?r = Inr J" "rows J = cols ?r" "cols J = cols ?r" "well_formed J"
    and cell: "\<forall>i<cols ?r. \<forall>j<cols ?r.
                 mget J i j = dsub (if i = j then mget ?r 0 j else Finite 0)
                                   (dmul (mget ?r 0 i) (mget ?r 0 j))"
    and near: "\<forall>i<cols ?r. \<forall>j<cols ?r. \<forall>x y.
                  mget ?r 0 i = Finite x \<and> 0 \<le> x \<and> x \<le> 1
                  \<and> mget ?r 0 j = Finite y \<and> 0 \<le> y \<and> y \<le> 1 \<longrightarrow>
                  (\<exists>z. mget J i j = Finite z
                       \<and> \<bar>z - y * ((if i = j then 1 else 0) - x)\<bar> \<le> 1 / 2 ^ 51)"
    by blast
  have size: "rows J = 2" "cols J = 2" using J(2,3) by simp_all
  have "mget J 0 0 = dsub (mget ?r 0 0) (dmul (mget ?r 0 0) (mget ?r 0 0))"
    "mget J 0 1 = dsub (Finite 0) (dmul (mget ?r 0 0) (mget ?r 0 1))"
    "mget J 1 0 = dsub (Finite 0) (dmul (mget ?r 0 1) (mget ?r 0 0))"
    "mget J 1 1 = dsub (mget ?r 0 1) (dmul (mget ?r 0 1) (mget ?r 0 1))"
    using cell by simp_all
  then have cells: "mget J 0 0 = Finite (3 / 16)" "mget J 0 1 = Finite (- (3 / 16))"
       "mget J 1 0 = Finite (- (3 / 16))" "mget J 1 1 = Finite (3 / 16)"
    unfolding r by (simp_all add: fl_sixteenths)
  have "\<exists>z. mget J 0 1 = Finite z \<and> \<bar>z - 3 / 4 * (0 - 1 / 4)\<bar> \<le> 1 / 2 ^ 51"
  proof -
    have "0 < cols ?r" "1 < cols ?r" by simp_all
    moreover have "mget ?r 0 0 = Finite (1 / 4) \<and> 0 \<le> (1 / 4 :: real) \<and> (1 / 4 :: real) \<le> 1
       \<and> mget ?r 0 1 = Finite (3 / 4) \<and> 0 \<le> (3 / 4 :: real) \<and> (3 / 4 :: real) \<le> 1"
      using r by simp
    ultimately have "\<exists>z. mget J 0 1 = Finite z
        \<and> \<bar>z - 3 / 4 * ((if (0::nat) = 1 then 1 else 0) - 1 / 4)\<bar> \<le> 1 / 2 ^ 51"
      using near by blast
    then show ?thesis by simp
  qed
  with wf one r J(1,4) size cells show ?thesis by blast
qed

lemma nine_tenths_squared:
  "dmul (Finite (8106479329266893 / 9007199254740992))
        (Finite (8106479329266893 / 9007199254740992)) =
   Finite (1823957849085051 / 2251799813685248)"
  unfolding dmul.simps
  by (subst fl_normal [where n = 53]) (simp_all add: round_even_def Let_def)

lemma nine_tenths_diagonal:
  "dsub (Finite (8106479329266893 / 9007199254740992))
        (Finite (1823957849085051 / 2251799813685248)) =
   Finite (810647932926689 / 9007199254740992)"
  unfolding dsub.simps
  by (subst fl_normal [where n = 56]) (simp_all add: round_even_def Let_def)

lemma nine_tenths_complement:
  "dsub (Finite 1) (Finite (8106479329266893 / 9007199254740992)) =
   Finite (900719925474099 / 9007199254740992)"
  unfolding dsub.simps
  by (subst fl_normal [where n = 56]) (simp_all add: round_even_def Let_def)

lemma nine_tenths_factored:
  "dmul (Finite (8106479329266893 / 9007199254740992))
        (Finite (900719925474099 / 9007199254740992)) =
   Finite (6485183463413513 / 72057594037927936)"
  unfolding dmul.simps
  by (subst fl_normal [where n = 56]) (simp_all add: round_even_def Let_def)

lemma NaN_row_jacobian:
  "softmax_jacobian_double \<lparr>rows = 1, cols = 2, data = [NaN, Finite 0]\<rparr> =
     Inr \<lparr>rows = 2, cols = 2, data = [NaN, NaN, NaN, Finite 0]\<rparr>"
proof -
  let ?r = "\<lparr>rows = 1, cols = 2, data = [NaN, Finite 0]\<rparr>"
  have cell: "mget ?r 0 0 = NaN" "mget ?r 0 1 = Finite 0"
    by (simp_all add: mget_def)
  show ?thesis
    by (simp add: softmax_jacobian_double_eq tabulate_2_2 cell del: One_nat_def)
qed

text \<open>
  Claim C8, as stated, fails on the diagonal. For the row holding the double nearest to
  \<open>0.9\<close>, which is \<open>8106479329266893 / 2\<^sup>5\<^sup>3\<close>, the diagonal cell the code
  returns is \<open>810647932926689 / 2\<^sup>5\<^sup>3\<close>, while \<open>r * (1 - r)\<close> evaluated in
  double precision is \<open>6485183463413513 / 2\<^sup>5\<^sup>6\<close>, one unit in the last place above;
  nor is the code's cell the exact product \<open>r * (1 - r)\<close>. And for the activated row
  \<open>[NaN, 0]\<close>, which the forward pass returns on the input row \<open>[1000, 0]\<close>, the cells
  \<open>(0, 1)\<close> and \<open>(1, 0)\<close> of the Jacobian are both NaN, which \<open>==\<close> does not hold
  equal.
\<close>

theorem softmax_jacobian_diagonal_counterexample:
  "softmax_jacobian_double
     \<lparr>rows = 1, cols = 1, data = [Finite (8106479329266893 / 9007199254740992)]\<rparr> =
   Inr \<lparr>rows = 1, cols = 1, data = [Finite (810647932926689 / 9007199254740992)]\<rparr>
   \<and> dmul (Finite (8106479329266893 / 9007199254740992))
        (dsub (Finite 1) (Finite (8106479329266893 / 9007199254740992))) =
     Finite (6485183463413513 / 72057594037927936)
   \<and> Finite (810647932926689 / 9007199254740992)
     \<noteq> Finite (6485183463413513 / 72057594037927936)
   \<and> (810647932926689 / 9007199254740992 :: real)
     \<noteq> 8106479329266893 / 9007199254740992 * (1 - 8106479329266893 / 9007199254740992)
   \<and> softmax_jacobian_double \<lparr>rows = 1, cols = 2, data = [NaN, Finite 0]\<rparr> =
       Inr \<lparr>rows = 2, cols = 2, data = [NaN, NaN, NaN, Finite 0]\<rparr>
   \<and> \<not> deq (mget \<lparr>rows = 2, cols = 2, data = [NaN, NaN, NaN, Finite 0]\<rparr> 0 1)
            (mget \<lparr>rows = 2, cols = 2, data = [NaN, NaN, NaN, Finite 0]\<rparr> 1 0)"
proof -
  let ?r = "\<lparr>rows = 1, cols = 1, data = [Finite (8106479329266893 / 9007199254740992)]\<rparr>"
  have cell: "mget ?r 0 0 = Finite (8106479329266893 / 9007199254740992)"
    by (simp add: mget_def)
  have "softmax_jacobian_double ?r =
          Inr \<lparr>rows = 1, cols = 1, data = [Finite (810647932926689 / 9007199254740992)]\<rparr>"
    by (simp add: softmax_jacobian_double_eq tabulate_1_1 cell nine_tenths_squared
        nine_tenths_diagonal del: dmul.simps dsub.simps One_nat_def)
  moreover have "dmul (Finite (8106479329266893 / 9007199254740992))
        (dsub (Finite 1) (Finite (8106479329266893 / 9007199254740992))) =
     Finite (6485183463413513 / 72057594037927936)"
    by (simp only: nine_tenths_complement nine_tenths_factored)
  moreover have "\<not> deq (mget \<lparr>rows = 2, cols = 2, data = [NaN, NaN, NaN, Finite 0]\<rparr> 0 1)
            (mget \<lparr>rows = 2, cols = 2, data = [NaN, NaN, NaN, Finite 0]\<rparr> 1 0)"
    by (simp add: deq_def mget_def)
  ultimately show ?thesis using NaN_row_jacobian by simp
qed

lemma fl_not_NaN [simp]: "fl x \<noteq> NaN"
  by (simp add: fl_def)

lemma jacobian_cell_not_NaN: "dsub (Finite a) (dmul (Finite x) (Finite y)) \<noteq> NaN"
  by (rule fl_cases [of "x * y"]) simp_all

text \<open>
  The diagonal cell \<open>r - r * r\<close>, rounded twice, is within \<open>2\<^sup>-\<^sup>5\<^sup>2\<close> of
  \<open>r * (1 - r)\<close> for \<open>r\<close> between 0 and 1.
\<close>

lemma jacobian_diagonal_error:
  assumes "0 \<le> x" and "x \<le> 1"
  shows "\<exists>y. dsub (Finite x) (dmul (Finite x) (Finite x)) = Finite y
             \<and> \<bar>y - x * (1 - x)\<bar> \<le> 1 / 2 ^ 52"
proof -
  define u :: real where "u = 1 / 2 ^ 53"
  define eta :: real where "eta = 1 / 2 ^ 1075"
  have u: "0 < u" "u \<le> 1 / 8" and eta: "0 \<le> eta" "8 * eta \<le> u"
    by (simp_all add: u_def eta_def)
  have err: "\<bar>nearest t - t\<bar> \<le> \<bar>t\<bar> * u + eta" for t
    using nearest_error [of t] by (simp add: u_def eta_def)
  define p where "p = nearest (x * x)"
  define d where "d = x - x * x"
  have xx: "0 \<le> x * x" "x * x \<le> 1"
    using assms by (simp_all add: mult_le_one)
  have d: "0 \<le> d" "d \<le> 1 / 4"
  proof -
    have "x * x \<le> x * 1" using assms by (intro mult_left_mono) simp_all
    then show "0 \<le> d" by (simp add: d_def)
    have "0 \<le> (x - 1 / 2)\<^sup>2" by simp
    then show "d \<le> 1 / 4" by (simp add: d_def power2_eq_square algebra_simps)
  qed
  have "\<bar>x * x\<bar> * u \<le> 1 * u" using xx u by (intro mult_right_mono) simp_all
  with err [of "x * x"] have p: "\<bar>p - x * x\<bar> \<le> u + eta" by (simp add: p_def)
  then have "\<bar>p\<bar> \<le> 4" using xx u eta by linarith
  then have mul: "dmul (Finite x) (Finite x) = Finite p"
    using max_double_ge_4 by (simp add: fl_def p_def)
  define y where "y = nearest (x - p)"
  have xp: "\<bar>x - p\<bar> \<le> 1 / 4 + (u + eta)" using p d unfolding d_def by linarith
  have "\<bar>x - p\<bar> * u \<le> (1 / 4 + (u + eta)) * u" using xp u by (intro mult_right_mono) simp_all
  also have "\<dots> \<le> (1 / 2) * u" using u eta by (intro mult_right_mono) simp_all
  finally have "\<bar>y - (x - p)\<bar> \<le> u / 2 + eta" using err [of "x - p"] by (simp add: y_def)
  with p have near: "\<bar>y - d\<bar> \<le> 2 * u" using eta unfolding d_def by linarith
  then have "\<bar>y\<bar> \<le> 4" using d u by linarith
  then have "dsub (Finite x) (Finite p) = Finite y"
    using max_double_ge_4 by (simp add: fl_def y_def)
  moreover have "x * (1 - x) = d" by (simp add: d_def algebra_simps)
  moreover have "2 * u = 1 / 2 ^ 52" by (simp add: u_def)
  ultimately show ?thesis using mul near by simp
qed

text \<open>
  Claim C8, amended. For a well-formed activated row \<open>r\<close> of double-precision cells
  with one row and \<open>C\<close> columns, the Jacobian computed by \<open>softmax_jacobian\<close> has the
  same value in cells \<open>(i, j)\<close> and \<open>(j, i)\<close>, and when every cell of \<open>r\<close> is finite
  these cells are equal under \<open>==\<close> (no cell of the Jacobian is NaN); its diagonal cell
  \<open>(i, i)\<close> is \<open>r[i] - r[i] * r[i]\<close>, the product and the difference each rounded,
  which for \<open>r[i]\<close> between 0 and 1 is within \<open>2\<^sup>-\<^sup>5\<^sup>2\<close> of \<open>r[i] * (1 - r[i])\<close>.
\<close>

theorem softmax_jacobian_double_symmetric:
  assumes "well_formed r" and "rows r = 1"
  shows "\<exists>J. softmax_jacobian_double r = Inr J
           \<and> (\<forall>i<cols r. \<forall>j<cols r. mget J i j = mget J j i)
           \<and> (\<forall>i<cols r. mget J i i = dsub (mget r 0 i) (dmul (mget r 0 i) (mget r 0 i)))
           \<and> ((\<forall>j<cols r. \<exists>x. mget r 0 j = Finite x) \<longrightarrow>
                (\<forall>i<cols r. \<forall>j<cols r. deq (mget J i j) (mget J j i)))
           \<and> (\<forall>i<cols r. \<forall>x. mget r 0 i = Finite x \<and> 0 \<le> x \<and> x \<le> 1 \<longrightarrow>
                (\<exists>y. mget J i i = Finite y \<and> \<bar>y - x * (1 - x)\<bar> \<le> 1 / 2 ^ 52))"
proof -
  let ?c = "\<lambda>i j. dsub (if i = j then mget r 0 j else Finite 0) (dmul (mget r 0 i) (mget r 0 j))"
  have sym: "?c i j = ?c j i" for i j
    by (cases "i = j") (simp_all add: dmul_commute [of "mget r 0 i"])
  have eq: "deq (?c i j) (?c j i)"
    if "\<forall>j<cols r. \<exists>x. mget r 0 j = Finite x" and "i < cols r" and "j < cols r" for i j
  proof -
    from that obtain x y where xy: "mget r 0 i = Finite x" "mget r 0 j = Finite y" by blast
    have "?c i j \<noteq> NaN"
      unfolding xy using jacobian_cell_not_NaN [of _ x y] by (cases "i = j") simp_all
    with sym [of i j] show ?thesis by (simp add: deq_def)
  qed
  have diag: "\<exists>y. ?c i i = Finite y \<and> \<bar>y - x * (1 - x)\<bar> \<le> 1 / 2 ^ 52"
    if "mget r 0 i = Finite x \<and> 0 \<le> x \<and> x \<le> 1" for i x
    using that jacobian_diagonal_error [of x] by simp
  show ?thesis
    unfolding softmax_jacobian_double_eq [OF assms(2)]
    using sym eq diag by (auto simp: mget_tabulate)
qed

theorem softmax_jacobian_double_symmetric_witness:
  "well_formed \<lparr>rows = 1, cols = 2, data = [Finite (1 / 4), Finite (3 / 4)]\<rparr>
   \<and> rows \<lparr>rows = 1, cols = 2, data = [Finite (1 / 4), Finite (3 / 4)]\<rparr> = 1
   \<and> mget \<lparr>rows = 1, cols = 2, data = [Finite (1 / 4), Finite (3 / 4)]\<rparr> 0 0 = Finite (1 / 4)
   \<and> mget \<lparr>rows = 1, cols = 2, data = [Finite (1 / 4), Finite (3 / 4)]\<rparr> 0 1 = Finite (3 / 4)
   \<and> (\<exists>J. softmax_jacobian_double
               \<lparr>rows = 1, cols = 2, data = [Finite (1 / 4), Finite (3 / 4)]\<rparr> = Inr J
          \<and> mget J 0 1 = mget J 1 0 \<and> deq (mget J 0 1) (mget J 1 0)
          \<and> mget J 0 0 = Finite (3 / 16) \<and> mget J 1 1 = Finite (3 / 16)
          \<and> (\<exists>y. mget J 0 0 = Finite y \<and> \<bar>y - 1 / 4 * (1 - 1 / 4)\<bar> \<le> 1 / 2 ^ 52))"
proof -
  let ?r = "\<lparr>rows = 1, cols = 2, data = [Finite (1 / 4), Finite (3 / 4)]\<rparr>"
  have wf: "well_formed ?r" and one: "rows ?r = 1"
    by (simp_all add: well_formed_def)
  have r: "mget ?r 0 0 = Finite (1 / 4)" "mget ?r 0 1 = Finite (3 / 4)"
    by (simp_all add: mget_def)
  have fin: "\<forall>j<cols ?r. \<exists>x. mget ?r 0 j = Finite x"
  proof (intro allI impI)
    fix j
    assume "j < cols ?r"
    then consider "j = 0" | "j = 1" by (auto simp: less_2_cases_iff)
    then show "\<exists>x. mget ?r 0 j = Finite x" using r by cases blast+
  qed
  from softmax_jacobian_double_symmetric [OF wf one] obtain J where
    J: "softmax_jacobian_double ?r = Inr J"
    and sym: "\<forall>i<cols ?r. \<forall>j<cols ?r. mget J i j = mget J j i"
    and diag: "\<forall>i<cols ?r. mget J i i = dsub (mget ?r 0 i) (dmul (mget ?r 0 i) (mget ?r 0 i))"
    and eq: "(\<forall>j<cols ?r. \<exists>x. mget ?r 0 j = Finite x) \<longrightarrow>
                (\<forall>i<cols ?r. \<forall>j<cols ?r. deq (mget J i j) (mget J j i))"
    and near: "\<forall>i<cols ?r. \<forall>x. mget ?r 0 i = Finite x \<and> 0 \<le> x \<and> x \<le> 1 \<longrightarrow>
                (\<exists>y. mget J i i = Finite y \<and> \<bar>y - x * (1 - x)\<bar> \<le> 1 / 2 ^ 52)"
    by blast
  have "mget J 0 1 = mget J 1 0" using sym by simp
  moreover have "deq (mget J 0 1) (mget J 1 0)" using eq fin by simp
  moreover have "mget J 0 0 = dsub (mget ?r 0 0) (dmul (mget ?r 0 0) (mget ?r 0 0))"
    "mget J 1 1 = dsub (mget ?r 0 1) (dmul (mget ?r 0 1) (mget ?r 0 1))"
    using diag by simp_all
  then have "mget J 0 0 = Finite (3 / 16)" "mget J 1 1 = Finite (3 / 16)"
    unfolding r by (simp_all add: fl_sixteenths)
  moreover have "\<exists>y. mget J 0 0 = Finite y \<and> \<bar>y - 1 / 4 * (1 - 1 / 4)\<bar> \<le> 1 / 2 ^ 52"
  proof -
    have "0 < cols ?r" by simp
    moreover have "mget ?r 0 0 = Finite (1 / 4) \<and> 0 \<le> (1 / 4 :: real) \<and> (1 / 4 :: real) \<le> 1"
      using r by simp
    ultimately show ?thesis using near by blast
  qed
  ultimately show ?thesis using wf one r J by blast
qed

subsection \<open>The softmax forward pass on double-precision cells\<close>

text \<open>
  Claim C3. On double-precision cells and for any library function \<open>ex\<close> in the place
  of \<open>exp\<close>, \<open>forward_softmax\<close> keeps the size of a well-formed matrix, and for every
  row \<open>i\<close> the first inner loop stores \<open>ex (x[j])\<close> in each cell of the row (the
  exponential of the cell itself, with no maximum subtracted) and returns their rounded
  left-to-right sum; the output cell is the rounded quotient of \<open>ex (x[j])\<close> by that
  sum, or \<open>0\<close> when the sum compares equal to \<open>0\<close>. The witness runs a row whose
  exponentials underflow to zero, where the guard returns zeros and the division would
  return NaN, and a row whose first exponential overflows.
\<close>

theorem forward_softmax_double_rows:
  assumes "well_formed matrix"
  shows "rows (forward_softmax_double ex matrix) = rows matrix
       \<and> cols (forward_softmax_double ex matrix) = cols matrix
       \<and> well_formed (forward_softmax_double ex matrix)
       \<and> (\<forall>i<rows matrix.
             fst (softmax_exp_row_double ex i matrix) = row_exp_sum_double ex matrix i
           \<and> (\<forall>j<cols matrix.
                 mget (snd (softmax_exp_row_double ex i matrix)) i j = ex (mget matrix i j)
               \<and> mget (forward_softmax_double ex matrix) i j =
                   (if deq (row_exp_sum_double ex matrix i) (Finite 0) then Finite 0
                    else ddiv (ex (mget matrix i j)) (row_exp_sum_double ex matrix i))))"
  unfolding forward_softmax_double_eq [OF assms]
  by (simp add: softmax_exp_row_double_eq [OF assms] mget_tabulate)

lemma underflow_overflow_sums:
  "row_exp_sum_double exp_double
     \<lparr>rows = 2, cols = 2,
        data = [Finite (- 1000), Finite (- 1000), Finite 1000, Finite 0]\<rparr> 0 = Finite 0"
  "row_exp_sum_double exp_double
     \<lparr>rows = 2, cols = 2,
        data = [Finite (- 1000), Finite (- 1000), Finite 1000, Finite 0]\<rparr> 1 = PInf"
  by (simp_all add: row_exp_sum_double_def mget_def upt_2 exp_double_0 exp_double_1000
      exp_double_minus_1000 del: exp_double.simps)

theorem forward_softmax_double_rows_witness:
  "well_formed
     \<lparr>rows = 2, cols = 2, data = [Finite (- 1000), Finite (- 1000), Finite 1000, Finite 0]\<rparr>
   \<and> row_exp_sum_double exp_double
        \<lparr>rows = 2, cols = 2,
           data = [Finite (- 1000), Finite (- 1000), Finite 1000, Finite 0]\<rparr> 0 = Finite 0
   \<and> mget (forward_softmax_double exp_double
        \<lparr>rows = 2, cols = 2,
           data = [Finite (- 1000), Finite (- 1000), Finite 1000, Finite 0]\<rparr>) 0 0 = Finite 0
   \<and> mget (forward_softmax_double exp_double
        \<lparr>rows = 2, cols = 2,
           data = [Finite (- 1000), Finite (- 1000), Finite 1000, Finite 0]\<rparr>) 0 1 = Finite 0
   \<and> row_exp_sum_double exp_double
        \<lparr>rows = 2, cols = 2,
           data = [Finite (- 1000), Finite (- 1000), Finite 1000, Finite 0]\<rparr> 1 = PInf
   \<and> mget (forward_softmax_double exp_double
        \<lparr>rows = 2, cols = 2,
           data = [Finite (- 1000), Finite (- 1000), Finite 1000, Finite 0]\<rparr>) 1 0 = NaN
   \<and> mget (forward_softmax_double exp_double
        \<lparr>rows = 2, cols = 2,
           data = [Finite (- 1000), Finite (- 1000), Finite 1000, Finite 0]\<rparr>) 1 1 = Finite 0"
proof -
  let ?m = "\<lparr>rows = 2, cols = 2,
                data = [Finite (- 1000), Finite (- 1000), Finite 1000, Finite 0]\<rparr>"
  have wf: "well_formed ?m" by (simp add: well_formed_def)
  have x: "mget ?m 0 0 = Finite (- 1000)" "mget ?m 0 1 = Finite (- 1000)"
    "mget ?m 1 0 = Finite 1000" "mget ?m 1 1 = Finite 0"
    by (simp_all add: mget_def)
  from forward_softmax_double_rows [OF wf, of exp_double] have
    cell: "\<And>i j. i < 2 \<Longrightarrow> j < 2 \<Longrightarrow>
             mget (forward_softmax_double exp_double ?m) i j =
               (if deq (row_exp_sum_double exp_double ?m i) (Finite 0) then Finite 0
                else ddiv (exp_double (mget ?m i j)) (row_exp_sum_double exp_double ?m i))"
    by simp
  have "mget (forward_softmax_double exp_double ?m) 0 0 = Finite 0"
    "mget (forward_softmax_double exp_double ?m) 0 1 = Finite 0"
    "mget (forward_softmax_double exp_double ?m) 1 0 = NaN"
    "mget (forward_softmax_double exp_double ?m) 1 1 = Finite 0"
    by (simp_all add: cell underflow_overflow_sums x deq_def exp_double_0 exp_double_1000
        del: exp_double.simps One_nat_def)
  with wf underflow_overflow_sums show ?thesis by blast
qed

text \<open>
  Claim C9, as stated, fails on the finite row \<open>[1000, 0]\<close>: \<open>exp 1000\<close> overflows to
  infinity, the sum of the exponentials is infinite (not zero), and the output row is
  \<open>[NaN, 0]\<close>, which is not all zero and whose sum is NaN.
\<close>

theorem forward_softmax_overflow_counterexample:
  "forward_softmax_double exp_double \<lparr>rows = 1, cols = 2, data = [Finite 1000, Finite 0]\<rparr> =
     \<lparr>rows = 1, cols = 2, data = [NaN, Finite 0]\<rparr>
   \<and> row_exp_sum_double exp_double \<lparr>rows = 1, cols = 2, data = [Finite 1000, Finite 0]\<rparr> 0
     = PInf
   \<and> \<not> deq PInf (Finite 0)
   \<and> dadd NaN (Finite 0) = NaN"
proof -
  let ?m = "\<lparr>rows = 1, cols = 2, data = [Finite 1000, Finite 0]\<rparr>"
  have wf: "well_formed ?m" by (simp add: well_formed_def)
  have x: "mget ?m 0 0 = Finite 1000" "mget ?m 0 1 = Finite 0"
    by (simp_all add: mget_def)
  have s: "row_exp_sum_double exp_double ?m 0 = PInf"
    by (simp add: row_exp_sum_double_def mget_def upt_2 exp_double_0 exp_double_1000
        del: exp_double.simps)
  have "forward_softmax_double exp_double ?m = \<lparr>rows = 1, cols = 2, data = [NaN, Finite 0]\<rparr>"
    unfolding forward_softmax_double_eq [OF wf]
    by (simp add: tabulate_1_2 s x deq_def exp_double_0 exp_double_1000
        del: exp_double.simps One_nat_def)
  with s show ?thesis by (simp add: deq_def)
qed

subsection \<open>The sum of an output row\<close>

lemma dadd_Finite_result:
  assumes "dadd F (Finite a) = Finite S"
  obtains s where "F = Finite s" "S = nearest (s + a)"
  using assms by (cases F) (auto simp: fl_def split: if_splits)

text \<open>
  The left-to-right sum of non-negative finite values, each addition rounded: when the
  result is finite, it is within \<open>2 n (u T + \<eta>)\<close> of the exact sum \<open>T\<close>, where
  \<open>u = 2\<^sup>-\<^sup>5\<^sup>3\<close> and \<open>\<eta> = 2\<^sup>-\<^sup>1\<^sup>0\<^sup>7\<^sup>5\<close>.
\<close>

lemma rounded_sum_error:
  assumes "\<forall>j<n. 0 \<le> a j" and "2 * real n \<le> 2 ^ 53"
    and "fold (\<lambda>j s. dadd s (Finite (a j))) [0..<n] (Finite 0) = Finite S"
  shows "0 \<le> S \<and> \<bar>S - (\<Sum>j<n. a j)\<bar> \<le> 2 * real n * ((\<Sum>j<n. a j) / 2 ^ 53 + 1 / 2 ^ 1075)"
  using assms
proof (induction n arbitrary: S)
  case 0
  then show ?case by simp
next
  case (Suc n)
  define u :: real where "u = 1 / 2 ^ 53"
  define eta :: real where "eta = 1 / 2 ^ 1075"
  define T where "T = (\<Sum>j<n. a j)"
  have u: "0 < u" and eta: "0 \<le> eta" by (simp_all add: u_def eta_def)
  have err: "\<bar>nearest x - x\<bar> \<le> \<bar>x\<bar> * u + eta" for x
    using nearest_error [of x] by (simp add: u_def eta_def)
  have nu: "2 * real n * u \<le> 1"
  proof -
    have "2 * real n \<le> 2 ^ 53" using Suc.prems(2) by simp
    then have "2 * real n * u \<le> 2 ^ 53 * u" using u by (intro mult_right_mono) simp_all
    then show ?thesis by (simp add: u_def)
  qed
  have an: "0 \<le> a n" using Suc.prems(1) by simp
  have T: "0 \<le> T"
    unfolding T_def using Suc.prems(1) by (intro sum_nonneg) simp
  from Suc.prems(3) have "dadd (fold (\<lambda>j s. dadd s (Finite (a j))) [0..<n] (Finite 0))
                               (Finite (a n)) = Finite S"
    by simp
  then obtain s where s: "fold (\<lambda>j s. dadd s (Finite (a j))) [0..<n] (Finite 0) = Finite s"
    and S: "S = nearest (s + a n)"
    by (rule dadd_Finite_result)
  have IH: "0 \<le> s \<and> \<bar>s - T\<bar> \<le> 2 * real n * (T * u + eta)"
    using Suc.IH [OF _ _ s] Suc.prems(1,2) by (simp add: T_def u_def eta_def)
  define X where "X = T * u + eta"
  define E where "E = \<bar>s - T\<bar>"
  have X: "0 \<le> X" using T u eta by (simp add: X_def)
  have E: "E \<le> 2 * real n * X" "0 \<le> E" using IH by (simp_all add: E_def X_def)
  have uE: "u * E \<le> X"
  proof -
    have "u * E \<le> u * (2 * real n * X)" using E(1) u by (intro mult_left_mono) simp_all
    also have "\<dots> = (2 * real n * u) * X" by simp
    also have "\<dots> \<le> 1 * X" using nu X by (intro mult_right_mono)
    finally show ?thesis by simp
  qed
  have s0: "0 \<le> s" using IH by simp
  have sT: "s \<le> T + E" unfolding E_def by linarith
  have us: "s * u \<le> T * u + u * E"
  proof -
    have "s * u \<le> (T + E) * u" using sT u by (intro mult_right_mono) simp_all
    then show ?thesis by (simp add: algebra_simps)
  qed
  have "0 \<le> s + a n" using s0 an by simp
  then have r: "\<bar>S - (s + a n)\<bar> \<le> (s + a n) * u + eta"
    unfolding S using err [of "s + a n"] by simp
  have S0: "0 \<le> S" unfolding S using s0 an by (intro nearest_nonneg) simp
  define Y where "Y = a n * u"
  have Y: "0 \<le> Y" "0 \<le> real n * Y" using an u by (simp_all add: Y_def)
  have "\<bar>S - (T + a n)\<bar> \<le> \<bar>S - (s + a n)\<bar> + E" unfolding E_def by linarith
  also have "\<dots> \<le> (s + a n) * u + eta + E" using r by simp
  also have "\<dots> = s * u + Y + eta + E" by (simp add: Y_def algebra_simps)
  also have "\<dots> \<le> (T * u + u * E) + Y + eta + 2 * real n * X" using us E(1) by simp
  also have "\<dots> \<le> X + X + Y + 2 * real n * X" using uE by (simp add: X_def)
  also have "\<dots> \<le> 2 * real (Suc n) * (X + Y)"
    using Y X by (simp add: algebra_simps)
  also have "\<dots> = 2 * real (Suc n) * ((T + a n) * u + eta)"
    by (simp add: X_def Y_def algebra_simps)
  finally have "\<bar>S - (\<Sum>j<Suc n. a j)\<bar> \<le> 2 * real (Suc n) * ((\<Sum>j<Suc n. a j) / 2 ^ 53 + 1 / 2 ^ 1075)"
    by (simp add: T_def u_def eta_def)
  with S0 show ?case by simp
qed

lemma rounded_softmax_row:
  assumes "0 < n" and "real n \<le> 2 ^ 51" and "\<forall>j<n. 0 \<le> a j"
    and "fold (\<lambda>j s. dadd s (Finite (a j))) [0..<n] (Finite 0) = Finite S"
    and "1 / 2 ^ 1022 \<le> S"
  shows "\<not> deq (Finite S) (Finite 0)
       \<and> (\<forall>j<n. ddiv (Finite (a j)) (Finite S) = Finite (nearest (a j / S)))
       \<and> \<bar>(\<Sum>j<n. nearest (a j / S)) - 1\<bar> \<le> 12 * real n / 2 ^ 53"
proof -
  define u :: real where "u = 1 / 2 ^ 53"
  define eta :: real where "eta = 1 / 2 ^ 1075"
  define T where "T = (\<Sum>j<n. a j)"
  define G where "G = 2 * real n * u"
  have u: "0 < u" and eta: "0 \<le> eta" by (simp_all add: u_def eta_def)
  have err: "\<bar>nearest x - x\<bar> \<le> \<bar>x\<bar> * u + eta" for x
    using nearest_error [of x] by (simp add: u_def eta_def)
  have S: "0 < S" using assms(5) by (rule less_le_trans [rotated]) simp
  have eta_u: "eta \<le> u" by (simp add: u_def eta_def)
  have eta_S: "eta \<le> u * S"
  proof -
    have "eta = u * (1 / 2 ^ 1022)" by (simp add: u_def eta_def)
    also have "\<dots> \<le> u * S" using assms(5) u by (intro mult_left_mono) simp_all
    finally show ?thesis .
  qed
  have G: "0 \<le> G" "G \<le> 1 / 2"
  proof -
    show "0 \<le> G" using u by (simp add: G_def)
    have "2 * real n * u \<le> 2 * 2 ^ 51 * u"
      using assms(2) u by (intro mult_right_mono mult_left_mono) simp_all
    then show "G \<le> 1 / 2" by (simp add: G_def u_def)
  qed
  have T: "0 \<le> T" unfolding T_def using assms(3) by (intro sum_nonneg) simp
  have "2 * real n \<le> 2 ^ 53" using assms(2) by simp
  from rounded_sum_error [OF assms(3) this assms(4)]
  have ST: "\<bar>S - T\<bar> \<le> 2 * real n * (T * u + eta)"
    by (simp add: T_def u_def eta_def)
  have "2 * real n * (T * u + eta) = G * T + 2 * real n * eta"
    by (simp add: G_def algebra_simps)
  also have "\<dots> \<le> G * T + 2 * real n * (u * S)"
    using eta_S by (intro add_left_mono mult_left_mono) simp_all
  also have "\<dots> = G * T + G * S" by (simp add: G_def)
  finally have ST': "\<bar>S - T\<bar> \<le> G * T + G * S" using ST by simp
  have GT: "G * T \<le> T / 2" using G(2) T mult_right_mono [of G "1 / 2" T] by simp
  have GS: "G * S \<le> S / 2" using G(2) S mult_right_mono [of G "1 / 2" S] by simp
  have T3: "T \<le> 3 * S" using ST' GT GS by linarith
  have "G * T \<le> G * (3 * S)" using T3 G(1) by (intro mult_left_mono)
  with ST' have ST4: "\<bar>S - T\<bar> \<le> 4 * (G * S)" by simp
  define q where "q = T / S"
  have q: "0 \<le> q" "q \<le> 3" using T S T3 by (simp_all add: q_def field_simps)
  have dev: "\<bar>q - 1\<bar> \<le> 4 * G"
  proof -
    have "\<bar>q - 1\<bar> = \<bar>S - T\<bar> / S" using S by (simp add: q_def field_simps abs_minus_commute)
    also have "\<dots> \<le> 4 * (G * S) / S" using ST4 S by (intro divide_right_mono) simp_all
    also have "\<dots> = 4 * G" using S by simp
    finally show ?thesis .
  qed
  have aj: "0 \<le> a j / S \<and> a j / S \<le> 3" if "j < n" for j
  proof -
    have "a j \<le> T"
      unfolding T_def using that assms(3) by (intro member_le_sum) simp_all
    with T3 have "a j \<le> 3 * S" by simp
    then show ?thesis using assms(3) that S by (simp add: field_simps)
  qed
  have cell: "\<bar>nearest (a j / S) - a j / S\<bar> \<le> a j / S * u + eta" if "j < n" for j
  proof -
    have "0 \<le> a j / S" using aj [OF that] by simp
    then have "\<bar>a j / S\<bar> = a j / S" by (rule abs_of_nonneg)
    with err [of "a j / S"] show ?thesis by (simp only:)
  qed
  have fin: "ddiv (Finite (a j)) (Finite S) = Finite (nearest (a j / S))" if "j < n" for j
  proof -
    define z where "z = a j / S"
    have z: "0 \<le> z" "z \<le> 3" "\<bar>nearest z - z\<bar> \<le> z * u + eta"
      using aj [OF that] cell [OF that] by (simp_all add: z_def)
    have zu: "z * u \<le> 3 * u" using z(2) u by (intro mult_right_mono) simp_all
    have "3 * u + eta \<le> 1" using eta_u by (simp add: u_def)
    with z zu have "\<bar>nearest z\<bar> \<le> 4" by linarith
    then have "\<bar>nearest (a j / S)\<bar> \<le> max_double"
      using max_double_ge_4 by (simp add: z_def)
    then show ?thesis using S by (simp add: fl_def)
  qed
  have "(\<Sum>j<n. nearest (a j / S)) - q = (\<Sum>j<n. nearest (a j / S) - a j / S)"
    by (simp add: q_def T_def sum_subtractf sum_divide_distrib)
  also have "\<bar>\<dots>\<bar> \<le> (\<Sum>j<n. \<bar>nearest (a j / S) - a j / S\<bar>)" by (rule sum_abs)
  also have "\<dots> \<le> (\<Sum>j<n. a j / S * u + eta)"
    using cell by (intro sum_mono) simp
  also have "\<dots> = q * u + real n * eta"
    by (simp add: q_def T_def sum.distrib sum_divide_distrib sum_distrib_right)
  finally have near: "\<bar>(\<Sum>j<n. nearest (a j / S)) - q\<bar> \<le> q * u + real n * eta" .
  have qu: "q * u \<le> 3 * u" using q(2) u by (intro mult_right_mono) simp_all
  have ne: "real n * eta \<le> real n * u" using eta_u by (intro mult_left_mono) simp_all
  have n1: "u \<le> real n * u" using assms(1) u by simp
  have "\<bar>(\<Sum>j<n. nearest (a j / S)) - 1\<bar> \<le> \<bar>(\<Sum>j<n. nearest (a j / S)) - q\<bar> + \<bar>q - 1\<bar>"
    by simp
  also have "\<dots> \<le> (3 * u + real n * u) + 4 * G" using near qu ne dev by linarith
  also have "\<dots> = 3 * u + 9 * (real n * u)" by (simp add: G_def)
  also have "\<dots> \<le> 12 * (real n * u)" using n1 by linarith
  finally have "\<bar>(\<Sum>j<n. nearest (a j / S)) - 1\<bar> \<le> 12 * real n / 2 ^ 53"
    by (simp add: u_def)
  moreover have "\<not> deq (Finite S) (Finite 0)" using S by (simp add: deq_def)
  ultimately show ?thesis using fin by simp
qed

text \<open>
  A left-to-right sum of non-negative doubles that ends below \<open>2\<^sup>-\<^sup>1\<^sup>0\<^sup>2\<^sup>2\<close> is exact:
  every partial sum is a multiple of \<open>2\<^sup>-\<^sup>1\<^sup>0\<^sup>7\<^sup>4\<close> below \<open>2\<^sup>-\<^sup>1\<^sup>0\<^sup>2\<^sup>2\<close>.
\<close>

lemma subnormal_sum_exact:
  assumes "\<forall>j<n. 0 \<le> a j \<and> nearest (a j) = a j"
    and "fold (\<lambda>j s. dadd s (Finite (a j))) [0..<n] (Finite 0) = Finite S"
    and "S < 1 / 2 ^ 1022"
  shows "S = (\<Sum>j<n. a j) \<and> nearest S = S \<and> 0 \<le> S"
  using assms
proof (induction n arbitrary: S)
  case 0
  then show ?case by (simp add: nearest_def)
next
  case (Suc n)
  have an: "0 \<le> a n" "nearest (a n) = a n" using Suc.prems(1) by simp_all
  from Suc.prems(2) have "dadd (fold (\<lambda>j s. dadd s (Finite (a j))) [0..<n] (Finite 0))
                               (Finite (a n)) = Finite S"
    by simp
  then obtain s where s: "fold (\<lambda>j s. dadd s (Finite (a j))) [0..<n] (Finite 0) = Finite s"
    and S: "S = nearest (s + a n)"
    by (rule dadd_Finite_result)
  have small: "x < 1 / 2 ^ 1022" if "nearest x < 1 / 2 ^ 1022" for x
  proof (rule ccontr)
    assume "\<not> x < 1 / 2 ^ 1022"
    then have "1 / 2 ^ 1022 \<le> x" by simp
    then have "1 / 2 ^ 1022 \<le> nearest x" by (rule nearest_ge_normal [OF refl])
    with that show False by simp
  qed
  have sum_small: "s + a n < 1 / 2 ^ 1022" using Suc.prems(3) unfolding S by (rule small)
  with an(1) have s_small: "s < 1 / 2 ^ 1022" by simp
  have "\<forall>j<n. 0 \<le> a j \<and> nearest (a j) = a j" using Suc.prems(1) by simp
  then have "s = (\<Sum>j<n. a j) \<and> nearest s = s \<and> 0 \<le> s"
    using s s_small by (rule Suc.IH)
  then have IH: "s = (\<Sum>j<n. a j)" "nearest s = s" "0 \<le> s" by blast+
  have a_small: "a n < 1 / 2 ^ 1022" using sum_small IH(3) by simp
  have "\<bar>s\<bar> * 2 ^ 1074 < 2 ^ 52"
    using s_small IH(3) by (simp only: abs_of_nonneg subnormal_range [OF refl])
  with IH(2) obtain k :: int where k: "s = of_int k / 2 ^ 1074"
    by (rule subnormal_multiple [OF refl])
  have "\<bar>a n\<bar> * 2 ^ 1074 < 2 ^ 52"
    using a_small an(1) by (simp only: abs_of_nonneg subnormal_range [OF refl])
  with an(2) obtain l :: int where l: "a n = of_int l / 2 ^ 1074"
    by (rule subnormal_multiple [OF refl])
  have eq: "s + a n = of_int (k + l) / 2 ^ 1074"
    unfolding k l by (simp only: of_int_add add_divide_distrib)
  have nn: "0 \<le> s + a n" using IH(3) an(1) by simp
  have "\<bar>s + a n\<bar> * 2 ^ 1074 < 2 ^ 52"
    using sum_small nn by (simp only: abs_of_nonneg subnormal_range [OF refl])
  then have "nearest (of_int (k + l) / 2 ^ 1074) = of_int (k + l) / 2 ^ 1074"
    unfolding eq by (rule nearest_multiple [OF refl])
  then have exact: "S = s + a n" unfolding S eq .
  have "nearest S = S" unfolding S by (rule nearest_idem)
  with exact IH(1) nn show ?case by simp
qed

lemma rounded_softmax_row_small:
  assumes "0 < n" and "\<forall>j<n. 0 \<le> a j \<and> nearest (a j) = a j"
    and "fold (\<lambda>j s. dadd s (Finite (a j))) [0..<n] (Finite 0) = Finite S"
    and "S \<noteq> 0" and "S < 1 / 2 ^ 1022"
  shows "\<not> deq (Finite S) (Finite 0)
       \<and> (\<forall>j<n. ddiv (Finite (a j)) (Finite S) = Finite (nearest (a j / S)))
       \<and> \<bar>(\<Sum>j<n. nearest (a j / S)) - 1\<bar> \<le> 12 * real n / 2 ^ 53"
proof -
  define u :: real where "u = 1 / 2 ^ 53"
  define eta :: real where "eta = 1 / 2 ^ 1075"
  have u: "0 < u" and eta: "0 \<le> eta" and eta_u: "eta \<le> u" by (simp_all add: u_def eta_def)
  have err: "\<bar>nearest x - x\<bar> \<le> \<bar>x\<bar> * u + eta" for x
    using nearest_error [of x] by (simp add: u_def eta_def)
  from subnormal_sum_exact [OF assms(2,3,5)]
  have T: "S = (\<Sum>j<n. a j)" and "0 \<le> S" by simp_all
  with assms(4) have S: "0 < S" by simp
  have a0: "0 \<le> a j" if "j < n" for j using assms(2) that by simp
  have aj: "0 \<le> a j / S \<and> a j / S \<le> 1" if "j < n" for j
  proof -
    have "a j \<le> S"
      unfolding T using that a0 by (intro member_le_sum) simp_all
    then show ?thesis using a0 [OF that] S by (simp add: field_simps)
  qed
  have cell: "\<bar>nearest (a j / S) - a j / S\<bar> \<le> a j / S * u + eta" if "j < n" for j
  proof -
    have "0 \<le> a j / S" using aj [OF that] by simp
    then have "\<bar>a j / S\<bar> = a j / S" by (rule abs_of_nonneg)
    with err [of "a j / S"] show ?thesis by (simp only:)
  qed
  have fin: "ddiv (Finite (a j)) (Finite S) = Finite (nearest (a j / S))" if "j < n" for j
  proof -
    define z where "z = a j / S"
    have z: "0 \<le> z" "z \<le> 1" "\<bar>nearest z - z\<bar> \<le> z * u + eta"
      using aj [OF that] cell [OF that] by (simp_all add: z_def)
    have zu: "z * u \<le> 1 * u" using z(2) u by (intro mult_right_mono) simp_all
    have "1 * u + eta \<le> 1" using eta_u by (simp add: u_def)
    with z zu have "\<bar>nearest z\<bar> \<le> 4" by linarith
    then have "\<bar>nearest (a j / S)\<bar> \<le> max_double"
      using max_double_ge_4 by (simp add: z_def)
    then show ?thesis using S by (simp add: fl_def)
  qed
  have one: "(\<Sum>j<n. a j / S) = 1"
    using S by (simp add: sum_divide_distrib [symmetric] T [symmetric])
  have "(\<Sum>j<n. nearest (a j / S)) - 1 = (\<Sum>j<n. nearest (a j / S) - a j / S)"
    by (simp add: sum_subtractf one)
  also have "\<bar>\<dots>\<bar> \<le> (\<Sum>j<n. \<bar>nearest (a j / S) - a j / S\<bar>)" by (rule sum_abs)
  also have "\<dots> \<le> (\<Sum>j<n. a j / S * u + eta)"
    using cell by (intro sum_mono) simp
  also have "\<dots> = (\<Sum>j<n. a j / S) * u + real n * eta"
    by (simp only: sum.distrib sum_distrib_right sum_constant card_lessThan)
  finally have near: "\<bar>(\<Sum>j<n. nearest (a j / S)) - 1\<bar> \<le> u + real n * eta"
    by (simp only: one mult_1)
  have ne: "real n * eta \<le> real n * u" using eta_u by (intro mult_left_mono) simp_all
  have n1: "u \<le> real n * u" using assms(1) u by simp
  have "0 \<le> real n * u" using u by simp
  with near ne n1 have "\<bar>(\<Sum>j<n. nearest (a j / S)) - 1\<bar> \<le> 12 * (real n * u)" by linarith
  then have "\<bar>(\<Sum>j<n. nearest (a j / S)) - 1\<bar> \<le> 12 * real n / 2 ^ 53"
    by (simp add: u_def)
  moreover have "\<not> deq (Finite S) (Finite 0)" using S by (simp add: deq_def)
  ultimately show ?thesis using fin by simp
qed

text \<open>
  A row of non-negative doubles divided by its rounded sum, when the sum is finite and
  not zero: the quotients are finite and their exact sum is within \<open>12 n 2\<^sup>-\<^sup>5\<^sup>3\<close> of 1.
\<close>

lemma rounded_softmax_row_finite:
  assumes "0 < n" and "real n \<le> 2 ^ 51" and "\<forall>j<n. 0 \<le> a j \<and> nearest (a j) = a j"
    and "fold (\<lambda>j s. dadd s (Finite (a j))) [0..<n] (Finite 0) = Finite S"
    and "S \<noteq> 0"
  shows "\<not> deq (Finite S) (Finite 0)
       \<and> (\<forall>j<n. ddiv (Finite (a j)) (Finite S) = Finite (nearest (a j / S)))
       \<and> \<bar>(\<Sum>j<n. nearest (a j / S)) - 1\<bar> \<le> 12 * real n / 2 ^ 53"
proof (cases "S < 1 / 2 ^ 1022")
  case True
  with assms(1,3,4,5) show ?thesis by (rule rounded_softmax_row_small)
next
  case False
  then have S: "1 / 2 ^ 1022 \<le> S" by simp
  from assms(3) have "\<forall>j<n. 0 \<le> a j" by simp
  with assms(1,2) show ?thesis using assms(4) S by (rule rounded_softmax_row)
qed

lemma fl_fixed: "fl e = Finite e \<Longrightarrow> nearest e = e"
  by (simp add: fl_def split: if_splits)

text \<open>
  Claim C9, amended. On double-precision cells, for a well-formed matrix and a row \<open>i\<close>:
  when the sum of the row's exponentials compares equal to zero, every cell of the
  output row is zero; and when the row has between 1 and \<open>2\<^sup>3\<^sup>1 - 1\<close> cells, every
  exponential of the row is a finite double that is not negative, and their rounded sum
  is finite (no overflow) and not zero, every cell of the output row is finite and the
  exact sum of the row differs from 1 by at most \<open>12 * C * 2\<^sup>-\<^sup>5\<^sup>3\<close>.
\<close>

theorem forward_softmax_double_row_sum:
  assumes "well_formed matrix" and "i < rows matrix"
  shows "(deq (row_exp_sum_double ex matrix i) (Finite 0) \<longrightarrow>
            (\<forall>j<cols matrix. mget (forward_softmax_double ex matrix) i j = Finite 0))
       \<and> (0 < cols matrix \<and> cols matrix < 2 ^ 31
            \<and> (\<forall>j<cols matrix. \<exists>e. ex (mget matrix i j) = Finite e \<and> 0 \<le> e \<and> fl e = Finite e)
            \<and> (\<exists>S. row_exp_sum_double ex matrix i = Finite S \<and> S \<noteq> 0) \<longrightarrow>
          (\<exists>out. (\<forall>j<cols matrix. mget (forward_softmax_double ex matrix) i j = Finite (out j))
                 \<and> \<bar>(\<Sum>j<cols matrix. out j) - 1\<bar> \<le> 12 * real (cols matrix) / 2 ^ 53))"
proof (intro conjI impI)
  assume "deq (row_exp_sum_double ex matrix i) (Finite 0)"
  then show "\<forall>j<cols matrix. mget (forward_softmax_double ex matrix) i j = Finite 0"
    using assms(2) by (simp add: forward_softmax_double_eq [OF assms(1)] mget_tabulate)
next
  let ?n = "cols matrix"
  assume h: "0 < ?n \<and> ?n < 2 ^ 31
    \<and> (\<forall>j<?n. \<exists>e. ex (mget matrix i j) = Finite e \<and> 0 \<le> e \<and> fl e = Finite e)
    \<and> (\<exists>S. row_exp_sum_double ex matrix i = Finite S \<and> S \<noteq> 0)"
  then have "\<forall>j<?n. \<exists>e. ex (mget matrix i j) = Finite e \<and> 0 \<le> e \<and> nearest e = e"
    using fl_fixed by blast
  then obtain a where a: "\<And>j. j < ?n \<Longrightarrow> ex (mget matrix i j) = Finite (a j)"
    and a0: "\<forall>j<?n. 0 \<le> a j \<and> nearest (a j) = a j"
    by metis
  from h obtain S where S: "row_exp_sum_double ex matrix i = Finite S" "S \<noteq> 0"
    by blast
  have "fold (\<lambda>j s. dadd s (ex (mget matrix i j))) [0..<?n] (Finite 0) =
        fold (\<lambda>j s. dadd s (Finite (a j))) [0..<?n] (Finite 0)"
    by (intro fold_cong) (simp_all add: a)
  with S(1) have sum: "fold (\<lambda>j s. dadd s (Finite (a j))) [0..<?n] (Finite 0) = Finite S"
    by (simp add: row_exp_sum_double_def)
  have "real ?n \<le> real (2 ^ 31)" using h by (simp only: of_nat_le_iff) simp
  also have "\<dots> \<le> 2 ^ 51" by simp
  finally have n: "real ?n \<le> 2 ^ 51" .
  from h have pos: "0 < ?n" by simp
  note row = rounded_softmax_row_finite [OF pos n a0 sum S(2)]
  have "mget (forward_softmax_double ex matrix) i j = Finite (nearest (a j / S))" if "j < ?n" for j
    using that assms(2) row
    by (simp add: forward_softmax_double_eq [OF assms(1)] mget_tabulate S(1) a)
  with row show "\<exists>out. (\<forall>j<?n. mget (forward_softmax_double ex matrix) i j = Finite (out j))
                 \<and> \<bar>(\<Sum>j<?n. out j) - 1\<bar> \<le> 12 * real ?n / 2 ^ 53"
    by (intro exI [of _ "\<lambda>j. nearest (a j / S)"]) simp
qed

lemma fl_small_values:
  "fl 1 = Finite 1" "fl 2 = Finite 2" "fl (1 / 2) = Finite (1 / 2)"
proof -
  show "fl 1 = Finite 1"
    by (subst fl_normal [where n = 52]) simp_all
  show "fl 2 = Finite 2"
    by (subst fl_normal [where n = 51]) simp_all
  show "fl (1 / 2) = Finite (1 / 2)"
    by (subst fl_normal [where n = 53]) simp_all
qed

lemma underflow_unit_sums:
  "row_exp_sum_double exp_double
     \<lparr>rows = 2, cols = 2,
        data = [Finite (- 1000), Finite (- 1000), Finite 0, Finite 0]\<rparr> 0 = Finite 0"
  "row_exp_sum_double exp_double
     \<lparr>rows = 2, cols = 2,
        data = [Finite (- 1000), Finite (- 1000), Finite 0, Finite 0]\<rparr> 1 = Finite 2"
  by (simp_all add: row_exp_sum_double_def mget_def upt_2 exp_double_0 exp_double_minus_1000
      fl_small_values del: exp_double.simps)

theorem forward_softmax_double_row_sum_witness:
  "well_formed
     \<lparr>rows = 2, cols = 2, data = [Finite (- 1000), Finite (- 1000), Finite 0, Finite 0]\<rparr>
   \<and> deq (row_exp_sum_double exp_double
        \<lparr>rows = 2, cols = 2,
           data = [Finite (- 1000), Finite (- 1000), Finite 0, Finite 0]\<rparr> 0) (Finite 0)
   \<and> exp_double (mget \<lparr>rows = 2, cols = 2,
           data = [Finite (- 1000), Finite (- 1000), Finite 0, Finite 0]\<rparr> 1 0) = Finite 1
   \<and> exp_double (mget \<lparr>rows = 2, cols = 2,
           data = [Finite (- 1000), Finite (- 1000), Finite 0, Finite 0]\<rparr> 1 1) = Finite 1
   \<and> fl 1 = Finite 1
   \<and> row_exp_sum_double exp_double
        \<lparr>rows = 2, cols = 2,
           data = [Finite (- 1000), Finite (- 1000), Finite 0, Finite 0]\<rparr> 1 = Finite 2
   \<and> forward_softmax_double exp_double
        \<lparr>rows = 2, cols = 2, data = [Finite (- 1000), Finite (- 1000), Finite 0, Finite 0]\<rparr>
       = \<lparr>rows = 2, cols = 2, data = [Finite 0, Finite 0, Finite (1 / 2), Finite (1 / 2)]\<rparr>
   \<and> (\<exists>out :: nat \<Rightarrow> real. mget (forward_softmax_double exp_double
                    \<lparr>rows = 2, cols = 2,
                       data = [Finite (- 1000), Finite (- 1000), Finite 0, Finite 0]\<rparr>) 1 0
                 = Finite (out 0)
            \<and> mget (forward_softmax_double exp_double
                    \<lparr>rows = 2, cols = 2,
                       data = [Finite (- 1000), Finite (- 1000), Finite 0, Finite 0]\<rparr>) 1 1
                 = Finite (out 1)
            \<and> \<bar>out 0 + out 1 - 1\<bar> \<le> 12 * 2 / 2 ^ 53)"
proof -
  let ?m = "\<lparr>rows = 2, cols = 2,
                data = [Finite (- 1000), Finite (- 1000), Finite 0, Finite 0]\<rparr>"
  have wf: "well_formed ?m" and row: "0 < rows ?m" "1 < rows ?m"
    by (simp_all add: well_formed_def)
  have x: "mget ?m 0 0 = Finite (- 1000)" "mget ?m 0 1 = Finite (- 1000)"
    "mget ?m 1 0 = Finite 0" "mget ?m 1 1 = Finite 0"
    by (simp_all add: mget_def)
  note s = underflow_unit_sums
  have zero: "deq (row_exp_sum_double exp_double ?m 0) (Finite 0)"
    by (simp only: s deq_def) simp
  have out: "forward_softmax_double exp_double ?m =
               \<lparr>rows = 2, cols = 2, data = [Finite 0, Finite 0, Finite (1 / 2), Finite (1 / 2)]\<rparr>"
    unfolding forward_softmax_double_eq [OF wf]
    by (simp add: tabulate_2_2 s x deq_def exp_double_0 fl_small_values
        del: exp_double.simps One_nat_def)
  have fin: "\<forall>j<cols ?m. \<exists>e. exp_double (mget ?m 1 j) = Finite e \<and> 0 \<le> e \<and> fl e = Finite e"
  proof (intro allI impI)
    fix j
    assume "j < cols ?m"
    then consider "j = 0" | "j = 1" by (auto simp: less_2_cases_iff)
    then have "exp_double (mget ?m 1 j) = Finite 1"
      by cases (simp_all only: x exp_double_0)
    then show "\<exists>e. exp_double (mget ?m 1 j) = Finite e \<and> 0 \<le> e \<and> fl e = Finite e"
      by (intro exI [of _ 1]) (simp add: fl_small_values)
  qed
  have "\<exists>S. row_exp_sum_double exp_double ?m 1 = Finite S \<and> S \<noteq> 0"
    using s(2) by (intro exI [of _ 2]) simp
  with forward_softmax_double_row_sum [OF wf row(2), of exp_double] fin
  obtain out' where o: "\<forall>j<2. mget (forward_softmax_double exp_double ?m) 1 j = Finite (out' j)"
    "\<bar>(\<Sum>j<2. out' j) - 1\<bar> \<le> 12 * 2 / 2 ^ 53"
    by auto
  have c: "mget (forward_softmax_double exp_double ?m) 1 0 = Finite (out' 0)"
    "mget (forward_softmax_double exp_double ?m) 1 1 = Finite (out' 1)"
    using o(1) by simp_all
  have "(\<Sum>j<2. out' j) = out' 0 + out' 1"
    by (simp add: lessThan_Suc numeral_2_eq_2)
  with o(2) have t: "\<bar>out' 0 + out' 1 - 1\<bar> \<le> 12 * 2 / 2 ^ 53" by simp
  have sums: "\<exists>out :: nat \<Rightarrow> real. mget (forward_softmax_double exp_double ?m) 1 0 = Finite (out 0)
            \<and> mget (forward_softmax_double exp_double ?m) 1 1 = Finite (out 1)
            \<and> \<bar>out 0 + out 1 - 1\<bar> \<le> 12 * 2 / 2 ^ 53"
    by (intro exI [of _ out'] conjI c t)
  have e: "exp_double (mget ?m 1 0) = Finite 1" "exp_double (mget ?m 1 1) = Finite 1"
    by (simp_all only: x exp_double_0)
  with wf zero fl_small_values(1) s(2) out sums show ?thesis by blast
qed

end
